theory Spec2Isabelle
  imports Main "HOL-Library.Word"
begin

section \<open>BallotGuard: the confidential tally state machine\<close>

text \<open>
  A shallow embedding of \<^verbatim>\<open>contracts/BallotGuard.sol\<close>. Storage is a record that every
  operation takes and returns; a revert is the \<open>Inl\<close> branch of a sum, and the transaction
  wrapper \<open>exec\<close> keeps the old storage when the body reverts, as the ledger does.
\<close>

subsection \<open>Data model\<close>

type_synonym uint256 = "256 word"
type_synonym uint64 = "64 word"
type_synonym uint32 = "32 word"
type_synonym address = "160 word"
type_synonym bytes = "8 word list"

text \<open>
  Modelled from the spec: the encrypted-arithmetic library (\<^verbatim>\<open>@fhevm/solidity/lib/FHE.sol\<close>)
  is an external collaborator whose code is not part of the repository. A handle
  \<^verbatim>\<open>euint32\<close> is either the uninitialised handle, which is the storage default that
  \<^verbatim>\<open>poll.encryptedCounts.push()\<close> pushes and which no operation of the library has
  produced, or a ciphertext, denoted by the 32-bit plaintext it encrypts; \<^verbatim>\<open>ebool\<close> is
  denoted by a boolean. Equality, conditional select and addition act on the plaintexts,
  addition wrapping at \<open>2 ^ 32\<close>; they read the uninitialised handle as zero and every
  result is a ciphertext.
\<close>

datatype euint32 = Uninitialized | Encrypted uint32

type_synonym ebool = bool
type_synonym externalEuint32 = "256 word"

fun plaintext :: "euint32 \<Rightarrow> uint32" where
  "plaintext Uninitialized = 0"
| "plaintext (Encrypted v) = v"

definition FHE_asEuint32 :: "uint32 \<Rightarrow> euint32" where
  "FHE_asEuint32 v = Encrypted v"

definition FHE_eq :: "euint32 \<Rightarrow> euint32 \<Rightarrow> ebool" where
  "FHE_eq a b = (plaintext a = plaintext b)"

definition FHE_select :: "ebool \<Rightarrow> euint32 \<Rightarrow> euint32 \<Rightarrow> euint32" where
  "FHE_select c a b = Encrypted (if c then plaintext a else plaintext b)"

definition FHE_add :: "euint32 \<Rightarrow> euint32 \<Rightarrow> euint32" where
  "FHE_add a b = Encrypted (plaintext a + plaintext b)"

text \<open>
  Modelled from the spec: the calls into the encryption service that can revert are
  parameters of the model. \<open>fromExternal sender handle proof\<close> is \<^verbatim>\<open>FHE.fromExternal\<close>:
  it yields the validated ciphertext, or \<open>None\<close> when the library reverts.
  \<open>checkSignatures handles encoded proof\<close> is \<^verbatim>\<open>FHE.checkSignatures\<close> and
  \<open>makePubliclyDecryptable handle\<close> is \<^verbatim>\<open>FHE.makePubliclyDecryptable\<close>, the grant of
  public decryption that the service's access-control list decides: \<open>False\<close> when the
  library reverts.
\<close>

record fhe =
  fromExternal :: "address \<Rightarrow> externalEuint32 \<Rightarrow> bytes \<Rightarrow> euint32 option"
  checkSignatures :: "euint32 list \<Rightarrow> bytes \<Rightarrow> bytes \<Rightarrow> bool"
  makePubliclyDecryptable :: "euint32 \<Rightarrow> bool"

record Poll =
  title :: string
  description :: string
  options :: "string list"
  startTime :: uint64
  endTime :: uint64
  finalized :: bool
  resultsSubmitted :: bool
  creator :: address
  encryptedCounts :: "euint32 list"
  decryptedCounts :: "uint32 list"
  encodedClearResults :: bytes
  decryptionProof :: bytes

datatype error =
    PollNotFound uint256
  | InvalidOptionCount
  | EmptyOption
  | EmptyTitle
  | InvalidSchedule
  | VotingNotStarted uint256
  | VotingFinished uint256
  | AlreadyVoted uint256 address
  | PollStillRunning uint256
  | PollAlreadyFinalized uint256
  | ResultsAlreadySubmitted uint256
  | PollNotFinalized uint256
  | InvalidResultsLength uint256
  | CountExceedsLimit uint256 uint256
  | Panic nat
  | RequireFailed string
  | LibraryRevert

datatype event =
    PollCreated uint256 address string
  | VoteSubmitted uint256 address
  | PollFinalized uint256 address
  | ResultsPublished uint256 "uint32 list"

text \<open>
  The contract's storage (\<^verbatim>\<open>pollCount\<close>, \<^verbatim>\<open>polls\<close>, \<^verbatim>\<open>pollVotes\<close>) together with the log
  of emitted events. A Solidity mapping holds the zero value at every key never written.
\<close>

record state =
  pollCount :: uint256
  polls :: "uint256 \<Rightarrow> Poll"
  pollVotes :: "uint256 \<Rightarrow> address \<Rightarrow> bool"
  events :: "event list"

definition zeroPoll :: Poll where
  "zeroPoll = \<lparr>title = [], description = [], options = [], startTime = 0, endTime = 0,
     finalized = False, resultsSubmitted = False, creator = 0, encryptedCounts = [],
     decryptedCounts = [], encodedClearResults = [], decryptionProof = []\<rparr>"

definition deployed :: state where
  "deployed = \<lparr>pollCount = 0, polls = (\<lambda>_. zeroPoll), pollVotes = (\<lambda>_ _. False), events = []\<rparr>"

definition MIN_OPTIONS :: nat where
  "MIN_OPTIONS = 2"

definition MAX_OPTIONS :: nat where
  "MAX_OPTIONS = 4"

subsection \<open>Private helpers\<close>

definition ensurePollExists :: "Poll \<Rightarrow> uint256 \<Rightarrow> error + unit" where
  "ensurePollExists poll pollId =
     (if length (options poll) = 0 then Inl (PollNotFound pollId) else Inr ())"

text \<open>
  \<^verbatim>\<open>mload\<close> at byte offset \<open>off\<close> of the array's data: the 32 bytes from there, read as
  one big-endian word.
\<close>

definition mload :: "bytes \<Rightarrow> nat \<Rightarrow> uint256" where
  "mload mem off = foldl (\<lambda>acc b. acc * 256 + ucast b) 0 (take 32 (drop off mem))"

text \<open>
  Array lengths are natural numbers: a length that would overflow the checked product
  \<^verbatim>\<open>expectedLength * 32\<close> cannot be held by the machine.
\<close>

definition decodeClearValues :: "bytes \<Rightarrow> nat \<Rightarrow> uint256 \<Rightarrow> error + uint256 list" where
  "decodeClearValues encodedValues expectedLength pollId =
     (if length encodedValues \<noteq> expectedLength * 32 then Inl (InvalidResultsLength pollId)
      else Inr (map (\<lambda>i. mload encodedValues (i * 32)) [0..<expectedLength]))"

subsection \<open>createPoll\<close>

text \<open>
  The loop of \<^verbatim>\<open>createPoll\<close>: it rejects an empty option when it reaches it, after the
  options before it have been pushed.
\<close>

fun pushOptions :: "string list \<Rightarrow> Poll \<Rightarrow> error + Poll" where
  "pushOptions [] poll = Inr poll"
| "pushOptions (opt # rest) poll =
     (if length opt = 0 then Inl EmptyOption
      else pushOptions rest
        (poll\<lparr>options := options poll @ [opt],
              encryptedCounts := encryptedCounts poll @ [Uninitialized]\<rparr>))"

definition createPoll ::
  "uint256 \<Rightarrow> address \<Rightarrow> string \<Rightarrow> string \<Rightarrow> string list \<Rightarrow> uint64 \<Rightarrow> uint64 \<Rightarrow> state
     \<Rightarrow> error + (state \<times> uint256)" where
  "createPoll now sender ttl descr opts start end s =
     (if length ttl = 0 then Inl EmptyTitle
      else if length opts < MIN_OPTIONS \<or> length opts > MAX_OPTIONS then Inl InvalidOptionCount
      else if end \<le> start \<or> ucast end \<le> now then Inl InvalidSchedule
      else if pollCount s + 1 = 0 then Inl (Panic 0x11)
      else
        let pollId = pollCount s;
            s1 = s\<lparr>pollCount := pollCount s + 1\<rparr>;
            poll = (polls s1 pollId)\<lparr>title := ttl, description := descr, startTime := start,
                     endTime := end, creator := sender\<rparr>
        in case pushOptions opts poll of
             Inl e \<Rightarrow> Inl e
           | Inr poll' \<Rightarrow>
               Inr (s1\<lparr>polls := (polls s1)(pollId := poll'),
                       events := events s1 @ [PollCreated pollId sender ttl]\<rparr>, pollId))"

subsection \<open>submitVote\<close>

text \<open>
  The tally loop over the option indices: index \<open>i\<close> of \<^verbatim>\<open>encryptedCounts\<close> receives the
  encrypted increment \<^verbatim>\<open>select(eq(choice, i), 1, 0)\<close>. Reading the array past its end is
  the checked-index panic. \<^verbatim>\<open>FHE.allowThis\<close> records, in the service's access-control
  list, the contract's permission on the ciphertext that the addition has just produced
  for it; it writes nothing to this contract's storage.
\<close>

fun addVote :: "euint32 \<Rightarrow> nat list \<Rightarrow> euint32 list \<Rightarrow> error + euint32 list" where
  "addVote choice [] counts = Inr counts"
| "addVote choice (i # rest) counts =
     (if i < length counts then
        let isTarget = FHE_eq choice (FHE_asEuint32 (of_nat i));
            increment = FHE_select isTarget (FHE_asEuint32 1) (FHE_asEuint32 0)
        in addVote choice rest (counts[i := FHE_add (counts ! i) increment])
      else Inl (Panic 0x32))"

definition submitVote ::
  "fhe \<Rightarrow> uint256 \<Rightarrow> address \<Rightarrow> uint256 \<Rightarrow> externalEuint32 \<Rightarrow> bytes \<Rightarrow> state \<Rightarrow> error + state" where
  "submitVote env now sender pollId encryptedChoice inputProof s =
     (let poll = polls s pollId in
      case ensurePollExists poll pollId of
        Inl e \<Rightarrow> Inl e
      | Inr _ \<Rightarrow>
          if now < ucast (startTime poll) then Inl (VotingNotStarted pollId)
          else if now > ucast (endTime poll) then Inl (VotingFinished pollId)
          else if pollVotes s pollId sender then Inl (AlreadyVoted pollId sender)
          else
            let s1 = s\<lparr>pollVotes := (pollVotes s)(pollId := (pollVotes s pollId)(sender := True))\<rparr>
            in case fromExternal env sender encryptedChoice inputProof of
                 None \<Rightarrow> Inl LibraryRevert
               | Some choice \<Rightarrow>
                   (case addVote choice [0..<length (options poll)] (encryptedCounts poll) of
                      Inl e \<Rightarrow> Inl e
                    | Inr counts \<Rightarrow>
                        Inr (s1\<lparr>polls := (polls s1)(pollId := poll\<lparr>encryptedCounts := counts\<rparr>),
                                events := events s1 @ [VoteSubmitted pollId sender]\<rparr>)))"

subsection \<open>finalizePoll\<close>

text \<open>
  The loop of \<^verbatim>\<open>finalizePoll\<close>: it asks the encryption service to make every encrypted
  counter publicly decryptable, in order. The grant is recorded in the service's
  access-control list, not in this contract's storage; when the service refuses one, the
  library reverts and the whole call with it.
\<close>

fun grantDecryption :: "fhe \<Rightarrow> euint32 list \<Rightarrow> error + unit" where
  "grantDecryption env [] = Inr ()"
| "grantDecryption env (h # rest) =
     (if makePubliclyDecryptable env h then grantDecryption env rest else Inl LibraryRevert)"

definition finalizePoll :: "fhe \<Rightarrow> uint256 \<Rightarrow> address \<Rightarrow> uint256 \<Rightarrow> state \<Rightarrow> error + state" where
  "finalizePoll env now sender pollId s =
     (let poll = polls s pollId in
      case ensurePollExists poll pollId of
        Inl e \<Rightarrow> Inl e
      | Inr _ \<Rightarrow>
          if now \<le> ucast (endTime poll) then Inl (PollStillRunning pollId)
          else if finalized poll then Inl (PollAlreadyFinalized pollId)
          else
            let s1 = s\<lparr>polls := (polls s)(pollId := poll\<lparr>finalized := True\<rparr>)\<rparr>;
                optionCount = length (encryptedCounts poll)
            in case grantDecryption env (map (\<lambda>i. encryptedCounts poll ! i) [0..<optionCount]) of
                 Inl e \<Rightarrow> Inl e
               | Inr _ \<Rightarrow> Inr (s1\<lparr>events := events s1 @ [PollFinalized pollId sender]\<rparr>))"

subsection \<open>submitDecryptedResults\<close>

text \<open>
  The loop that range-checks the decoded words and pushes them, truncated to 32 bits, onto
  \<^verbatim>\<open>decryptedCounts\<close>; \<open>i\<close> is the index of the head of the list.
\<close>

fun pushCounts :: "uint256 \<Rightarrow> nat \<Rightarrow> uint256 list \<Rightarrow> uint32 list \<Rightarrow> error + uint32 list" where
  "pushCounts pollId i [] acc = Inr acc"
| "pushCounts pollId i (d # rest) acc =
     (if d > 0xFFFFFFFF then Inl (CountExceedsLimit pollId (of_nat i))
      else pushCounts pollId (Suc i) rest (acc @ [ucast d]))"

definition submitDecryptedResults ::
  "fhe \<Rightarrow> uint256 \<Rightarrow> bytes \<Rightarrow> bytes \<Rightarrow> state \<Rightarrow> error + state" where
  "submitDecryptedResults env pollId encodedCounts proof s =
     (let poll = polls s pollId in
      case ensurePollExists poll pollId of
        Inl e \<Rightarrow> Inl e
      | Inr _ \<Rightarrow>
          if \<not> finalized poll then Inl (PollNotFinalized pollId)
          else if resultsSubmitted poll then Inl (ResultsAlreadySubmitted pollId)
          else
            let optionCount = length (encryptedCounts poll);
                handles = map (\<lambda>i. encryptedCounts poll ! i) [0..<optionCount]
            in if \<not> checkSignatures env handles encodedCounts proof then Inl LibraryRevert
               else case decodeClearValues encodedCounts optionCount pollId of
                 Inl e \<Rightarrow> Inl e
               | Inr decodedCounts \<Rightarrow>
                   (case pushCounts pollId 0 decodedCounts [] of
                      Inl e \<Rightarrow> Inl e
                    | Inr counts \<Rightarrow>
                        Inr (s\<lparr>polls := (polls s)(pollId := poll\<lparr>decryptedCounts := counts,
                                  encodedClearResults := encodedCounts, decryptionProof := proof,
                                  resultsSubmitted := True\<rparr>),
                               events := events s @ [ResultsPublished pollId counts]\<rparr>)))"

subsection \<open>Views\<close>

definition getPoll ::
  "state \<Rightarrow> uint256 \<Rightarrow>
     error + (string \<times> string \<times> string list \<times> uint64 \<times> uint64 \<times> bool \<times> bool \<times> address)" where
  "getPoll s pollId =
     (let poll = polls s pollId in
      case ensurePollExists poll pollId of
        Inl e \<Rightarrow> Inl e
      | Inr _ \<Rightarrow>
          Inr (title poll, description poll, map (\<lambda>i. options poll ! i) [0..<length (options poll)],
               startTime poll, endTime poll, finalized poll, resultsSubmitted poll, creator poll))"

definition hasVoted :: "state \<Rightarrow> uint256 \<Rightarrow> address \<Rightarrow> bool" where
  "hasVoted s pollId account = pollVotes s pollId account"

definition getDecryptedResults :: "state \<Rightarrow> uint256 \<Rightarrow> error + uint32 list" where
  "getDecryptedResults s pollId =
     (let poll = polls s pollId in
      case ensurePollExists poll pollId of
        Inl e \<Rightarrow> Inl e
      | Inr _ \<Rightarrow>
          if \<not> resultsSubmitted poll then Inl (RequireFailed ''RESULTS_NOT_AVAILABLE'')
          else Inr (map (\<lambda>i. decryptedCounts poll ! i) [0..<length (decryptedCounts poll)]))"

subsection \<open>Transactions\<close>

datatype call =
    CreatePoll string string "string list" uint64 uint64
  | SubmitVote uint256 externalEuint32 bytes
  | FinalizePoll uint256
  | SubmitDecryptedResults uint256 bytes bytes

record tx =
  timestamp :: uint256
  sender :: address
  call :: call

datatype receipt = Reverted error | Succeeded

text \<open>
  One transaction: the body runs on the storage; when it reverts, every write and every
  event of the body is discarded and the storage is the one before the call.
\<close>

definition body :: "fhe \<Rightarrow> state \<Rightarrow> tx \<Rightarrow> error + state" where
  "body env s t =
     (case call t of
        CreatePoll ttl descr opts start end \<Rightarrow>
          map_sum id fst (createPoll (timestamp t) (sender t) ttl descr opts start end s)
      | SubmitVote pollId encryptedChoice inputProof \<Rightarrow>
          submitVote env (timestamp t) (sender t) pollId encryptedChoice inputProof s
      | FinalizePoll pollId \<Rightarrow> finalizePoll env (timestamp t) (sender t) pollId s
      | SubmitDecryptedResults pollId encodedCounts proof \<Rightarrow>
          submitDecryptedResults env pollId encodedCounts proof s)"

definition exec :: "fhe \<Rightarrow> state \<Rightarrow> tx \<Rightarrow> state \<times> receipt" where
  "exec env s t = (case body env s t of Inl e \<Rightarrow> (s, Reverted e) | Inr s' \<Rightarrow> (s', Succeeded))"

subsection \<open>Histories\<close>

text \<open>
  A history is the list of transactions applied to the freshly deployed contract. Beside
  the storage, the world keeps the time of the last block and, for each accepted vote, the
  poll, the voter and the plaintext of the validated choice: a record for stating
  properties that no operation reads.
\<close>

type_synonym ballot = "uint256 \<times> address \<times> uint32"

record world =
  clock :: uint256
  contract :: state
  ballots :: "ballot list"

definition genesis :: world where
  "genesis = \<lparr>clock = 0, contract = deployed, ballots = []\<rparr>"

definition cast :: "fhe \<Rightarrow> state \<Rightarrow> tx \<Rightarrow> ballot list" where
  "cast env s t =
     (case call t of
        SubmitVote pollId encryptedChoice inputProof \<Rightarrow>
          (case (snd (exec env s t), fromExternal env (sender t) encryptedChoice inputProof) of
             (Succeeded, Some choice) \<Rightarrow> [(pollId, sender t, plaintext choice)]
           | _ \<Rightarrow> [])
      | _ \<Rightarrow> [])"

definition apply_tx :: "fhe \<Rightarrow> world \<Rightarrow> tx \<Rightarrow> world" where
  "apply_tx env w t =
     \<lparr>clock = timestamp t, contract = fst (exec env (contract w) t),
      ballots = ballots w @ cast env (contract w) t\<rparr>"

definition run :: "fhe \<Rightarrow> tx list \<Rightarrow> world" where
  "run env txs = foldl (apply_tx env) genesis txs"

text \<open>Time never decreases from one transaction to the next.\<close>

definition chronological :: "tx list \<Rightarrow> bool" where
  "chronological txs = sorted (map timestamp txs)"

text \<open>The voters of the accepted votes on a poll, and the accepted votes for a valid option.\<close>

definition voters :: "world \<Rightarrow> uint256 \<Rightarrow> address list" where
  "voters w pollId = map (\<lambda>b. fst (snd b)) (filter (\<lambda>b. fst b = pollId) (ballots w))"

definition validBallots :: "world \<Rightarrow> uint256 \<Rightarrow> ballot list" where
  "validBallots w pollId =
     filter (\<lambda>b. fst b = pollId \<and> unat (snd (snd b)) < length (options (polls (contract w) pollId)))
       (ballots w)"

text \<open>
  A sample encryption service for concrete runs: the external handle carries its
  plaintext, every input proof is accepted, a decryption is accepted when it is the
  encoding of the plaintexts behind the handles, and public decryption is granted for a
  ciphertext but refused for the uninitialised handle, on which the contract holds no
  permission.
\<close>

definition honest :: fhe where
  "honest = \<lparr>fromExternal = (\<lambda>_ h _. Some (Encrypted (ucast h))),
     checkSignatures = (\<lambda>handles encoded _.
        length encoded = length handles * 32 \<and>
        map (\<lambda>i. mload encoded (i * 32)) [0..<length handles]
          = map (\<lambda>h. ucast (plaintext h)) handles),
     makePubliclyDecryptable = (\<lambda>h. h \<noteq> Uninitialized)\<rparr>"

subsection \<open>A sample history\<close>

text \<open>
  The scenario of the repository's test: a three-option poll open for an hour, votes by
  two accounts, finalization after the deadline and publication of the decrypted counts.
\<close>

definition alice :: address where
  "alice = 0xA11CE"

definition bob :: address where
  "bob = 0xB0B"

definition txCreate :: tx where
  "txCreate = \<lparr>timestamp = 100, sender = alice,
     call = CreatePoll ''Election'' ''Choose wisely'' [''Alpha'', ''Beta'', ''Gamma''] 100 3700\<rparr>"

definition txVote :: "uint256 \<Rightarrow> address \<Rightarrow> externalEuint32 \<Rightarrow> tx" where
  "txVote now voter choice = \<lparr>timestamp = now, sender = voter, call = SubmitVote 0 choice []\<rparr>"

definition txFinalize :: "uint256 \<Rightarrow> tx" where
  "txFinalize now = \<lparr>timestamp = now, sender = bob, call = FinalizePoll 0\<rparr>"

text \<open>The encoding of a list of counts: one 32-byte big-endian word for each.\<close>

definition encodeCounts :: "uint32 list \<Rightarrow> bytes" where
  "encodeCounts counts =
     concat (map (\<lambda>c. replicate 28 0 @ map (\<lambda>k. ucast (drop_bit (8 * k) c)) [3, 2, 1, 0]) counts)"

definition txPublish :: "bytes \<Rightarrow> tx" where
  "txPublish encoded =
     \<lparr>timestamp = 3800, sender = bob, call = SubmitDecryptedResults 0 encoded []\<rparr>"

text \<open>An encryption service that accepts every proof, sound or not, and grants every request.\<close>

definition credulous :: fhe where
  "credulous = \<lparr>fromExternal = (\<lambda>_ h _. Some (Encrypted (ucast h))),
     checkSignatures = (\<lambda>_ _ _. True), makePubliclyDecryptable = (\<lambda>_. True)\<rparr>"

subsection \<open>Invariants\<close>

text \<open>What \<^verbatim>\<open>createPoll\<close> establishes for a poll and every later operation keeps.\<close>

definition wfPoll :: "Poll \<Rightarrow> bool" where
  "wfPoll p \<longleftrightarrow>
     MIN_OPTIONS \<le> length (options p) \<and> length (options p) \<le> MAX_OPTIONS \<and>
     length (encryptedCounts p) = length (options p) \<and> [] \<notin> set (options p) \<and>
     title p \<noteq> [] \<and> startTime p < endTime p \<and>
     (resultsSubmitted p \<longrightarrow> finalized p)"

text \<open>
  The ids below \<^verbatim>\<open>pollCount\<close> are the created polls; storage at every other id is
  untouched.
\<close>

definition structural :: "state \<Rightarrow> bool" where
  "structural s \<longleftrightarrow>
     (\<forall>pid. if pid < pollCount s then wfPoll (polls s pid)
            else polls s pid = zeroPoll \<and> (\<forall>v. \<not> pollVotes s pid v))"

text \<open>The created polls are the ones announced by a \<^verbatim>\<open>PollCreated\<close> event.\<close>

definition announced :: "state \<Rightarrow> bool" where
  "announced s \<longleftrightarrow>
     (\<forall>pid. pid < pollCount s \<longleftrightarrow> (\<exists>c t. PollCreated pid c t \<in> set (events s)))"

text \<open>The number of accepted votes on a poll whose choice is the option index \<open>i\<close>.\<close>

definition votesFor :: "world \<Rightarrow> uint256 \<Rightarrow> nat \<Rightarrow> nat" where
  "votesFor w pollId i =
     length (filter (\<lambda>b. fst b = pollId \<and> unat (snd (snd b)) = i) (ballots w))"

text \<open>
  How the storage relates to the history: a finalized poll's deadline is in the past, a
  voter's vote was cast after the start, the vote record holds exactly the voters of the
  accepted votes, each once, every encrypted counter holds the number of accepted votes
  for its option, modulo \<open>2 ^ 32\<close>, and once a vote has been accepted on a poll each of
  its counters is a ciphertext.
\<close>

definition historical :: "world \<Rightarrow> bool" where
  "historical w \<longleftrightarrow>
     (\<forall>pid. finalized (polls (contract w) pid) \<longrightarrow>
            ucast (endTime (polls (contract w) pid)) < clock w) \<and>
     (\<forall>pid v. pollVotes (contract w) pid v \<longrightarrow>
            ucast (startTime (polls (contract w) pid)) \<le> clock w) \<and>
     (\<forall>pid. distinct (voters w pid) \<and> set (voters w pid) = {v. pollVotes (contract w) pid v}) \<and>
     (\<forall>pid i. i < length (encryptedCounts (polls (contract w) pid)) \<longrightarrow>
            plaintext (encryptedCounts (polls (contract w) pid) ! i) = of_nat (votesFor w pid i)) \<and>
     (\<forall>pid. voters w pid \<noteq> [] \<longrightarrow>
            Uninitialized \<notin> set (encryptedCounts (polls (contract w) pid)))"

text \<open>
  A sound decryption check accepts an encoding only when its words are the plaintexts
  behind the handles, in order.
\<close>

definition sound :: "fhe \<Rightarrow> bool" where
  "sound env \<longleftrightarrow>
     (\<forall>handles encoded prf. checkSignatures env handles encoded prf \<longrightarrow>
        (\<forall>i < length handles. mload encoded (i * 32) = ucast (plaintext (handles ! i))))"

definition published :: "world \<Rightarrow> bool" where
  "published w \<longleftrightarrow>
     (\<forall>pid. resultsSubmitted (polls (contract w) pid) \<longrightarrow>
        decryptedCounts (polls (contract w) pid)
          = map plaintext (encryptedCounts (polls (contract w) pid)))"

text \<open>The number of \<^verbatim>\<open>PollFinalized\<close> events that the log holds for a poll.\<close>

definition finalizations :: "state \<Rightarrow> uint256 \<Rightarrow> nat" where
  "finalizations s pollId =
     length (filter (\<lambda>e. case e of PollFinalized q c \<Rightarrow> q = pollId | _ \<Rightarrow> False) (events s))"

definition finalizedOnce :: "state \<Rightarrow> bool" where
  "finalizedOnce s \<longleftrightarrow>
     (\<forall>pid. finalizations s pid = (if finalized (polls s pid) then 1 else 0))"

text \<open>
  The reading of \<^verbatim>\<open>encodedCounts\<close> in the spec's words: a big-endian unsigned integer
  is the sum of its bytes, the first one the most significant.
\<close>

definition beUint :: "bytes \<Rightarrow> nat" where
  "beUint bs = sum_list (map (\<lambda>j. unat (bs ! j) * 256 ^ (length bs - Suc j)) [0..<length bs])"

definition word32 :: "bytes \<Rightarrow> nat \<Rightarrow> nat" where
  "word32 encoded i = beUint (take 32 (drop (i * 32) encoded))"

section \<open>Effects of the operations\<close>

lemma word_less_succ:
  fixes x y :: "'a::len word"
  assumes "x + 1 \<noteq> 0"
  shows "y < x + 1 \<longleftrightarrow> y < x \<or> y = x"
proof -
  have "unat (x + 1) = Suc (unat x)"
    using assms unatSuc [of x] by (simp add: add.commute)
  then show ?thesis
    by (auto simp: word_less_nat_alt word_unat_eq_iff)
qed

lemma pushOptions_Inr:
  "pushOptions opts p = Inr p' \<longleftrightarrow>
     [] \<notin> set opts \<and>
     p' = p\<lparr>options := options p @ opts,
             encryptedCounts := encryptedCounts p @ replicate (length opts) Uninitialized\<rparr>"
proof (induction opts arbitrary: p)
  case Nil
  show ?case by auto
next
  case (Cons a opts)
  show ?case by (auto simp: Cons.IH replicate_app_Cons_same)
qed

lemma pushOptions_Inl:
  "pushOptions opts p = Inl e \<longleftrightarrow> [] \<in> set opts \<and> e = EmptyOption"
  by (induction opts arbitrary: p) auto

lemma createPoll_Inr:
  assumes "createPoll now sndr ttl descr opts start end s = Inr (s', pid)"
  shows "pid = pollCount s" and "pollCount s + 1 \<noteq> 0" and "ttl \<noteq> []"
    and "2 \<le> length opts" and "length opts \<le> 4" and "[] \<notin> set opts"
    and "start < end" and "now < ucast end"
    and "s' = s\<lparr>pollCount := pollCount s + 1,
              polls := (polls s)(pollCount s := (polls s (pollCount s))
                 \<lparr>title := ttl, description := descr,
                  startTime := start, endTime := end, creator := sndr,
                  options := options (polls s (pollCount s)) @ opts,
                  encryptedCounts :=
                    encryptedCounts (polls s (pollCount s)) @ replicate (length opts) Uninitialized\<rparr>),
              events := events s @ [PollCreated (pollCount s) sndr ttl]\<rparr>"
  using assms
  by (auto simp: createPoll_def MIN_OPTIONS_def MAX_OPTIONS_def Let_def pushOptions_Inr
      split: if_splits sum.splits)

lemma addVote_upt:
  assumes "n \<le> length counts"
  shows "addVote c [i..<n] counts =
      Inr (map (\<lambda>j. if i \<le> j \<and> j < n
                     then Encrypted (plaintext (counts ! j) + (if plaintext c = of_nat j then 1 else 0))
                     else counts ! j)
             [0..<length counts])"
  using assms
proof (induction "n - i" arbitrary: i counts)
  case 0
  then have le: "n \<le> i" by simp
  then have "(map (\<lambda>j. if i \<le> j \<and> j < n
                     then Encrypted (plaintext (counts ! j) + (if plaintext c = of_nat j then 1 else 0))
                     else counts ! j)
             [0..<length counts]) = counts"
    by (auto intro!: nth_equalityI)
  with le show ?case by simp
next
  case (Suc k)
  then have lt: "i < n" by simp
  then have upt: "[i..<n] = i # [Suc i..<n]" by (simp add: upt_rec)
  let ?c1 = "counts[i := FHE_add (counts ! i) (FHE_select (FHE_eq c (FHE_asEuint32 (of_nat i)))
                (FHE_asEuint32 1) (FHE_asEuint32 0))]"
  have len: "n \<le> length ?c1" using Suc.prems by simp
  have k: "k = n - Suc i" using Suc.hyps by simp
  have "addVote c [i..<n] counts = addVote c [Suc i..<n] ?c1"
    using lt Suc.prems by (simp add: upt Let_def)
  also have "\<dots> = Inr (map (\<lambda>j. if Suc i \<le> j \<and> j < n
                     then Encrypted (plaintext (?c1 ! j) + (if plaintext c = of_nat j then 1 else 0))
                     else ?c1 ! j)
             [0..<length ?c1])"
    by (rule Suc.hyps(1) [OF k len])
  also have "\<dots> = Inr (map (\<lambda>j. if i \<le> j \<and> j < n
                     then Encrypted (plaintext (counts ! j) + (if plaintext c = of_nat j then 1 else 0))
                     else counts ! j)
             [0..<length counts])"
    using lt Suc.prems
    by (auto simp: nth_list_update FHE_add_def FHE_select_def FHE_eq_def FHE_asEuint32_def
        intro!: nth_equalityI)
  finally show ?case .
qed

lemma submitVote_Inr:
  assumes "submitVote env now sndr pid h prf s = Inr s'"
  shows "options (polls s pid) \<noteq> []"
    and "ucast (startTime (polls s pid)) \<le> now" and "now \<le> ucast (endTime (polls s pid))"
    and "\<not> pollVotes s pid sndr"
    and "\<exists>choice counts. fromExternal env sndr h prf = Some choice \<and>
           addVote choice [0..<length (options (polls s pid))] (encryptedCounts (polls s pid))
             = Inr counts \<and>
           s' = s\<lparr>pollVotes := (pollVotes s)(pid := (pollVotes s pid)(sndr := True)),
                  polls := (polls s)(pid := (polls s pid)\<lparr>encryptedCounts := counts\<rparr>),
                  events := events s @ [VoteSubmitted pid sndr]\<rparr>"
  using assms
  by (auto simp: submitVote_def ensurePollExists_def Let_def not_less
      split: if_splits sum.splits option.splits)

lemma grantDecryption_Inr:
  "grantDecryption env hs = Inr u \<longleftrightarrow> (\<forall>h \<in> set hs. makePubliclyDecryptable env h)"
  by (induction hs) auto

lemma grantDecryption_Inl:
  "grantDecryption env hs = Inl e \<longleftrightarrow>
     e = LibraryRevert \<and> \<not> (\<forall>h \<in> set hs. makePubliclyDecryptable env h)"
  by (induction hs) auto

lemma finalizePoll_Inr:
  assumes "finalizePoll env now sndr pid s = Inr s'"
  shows "options (polls s pid) \<noteq> []"
    and "ucast (endTime (polls s pid)) < now"
    and "\<not> finalized (polls s pid)"
    and "s' = s\<lparr>polls := (polls s)(pid := (polls s pid)\<lparr>finalized := True\<rparr>),
                events := events s @ [PollFinalized pid sndr]\<rparr>"
    and "\<forall>h \<in> set (encryptedCounts (polls s pid)). makePubliclyDecryptable env h"
  using assms
  by (auto simp: finalizePoll_def ensurePollExists_def Let_def not_le map_nth grantDecryption_Inr
      split: if_splits sum.splits)

lemma pushCounts_Inr:
  "pushCounts pid i ds acc = Inr counts \<longleftrightarrow>
     (\<forall>d \<in> set ds. d \<le> 0xFFFFFFFF) \<and> counts = acc @ map ucast ds"
  by (induction ds arbitrary: i acc) (auto simp: not_less)

lemma submitDecryptedResults_Inr:
  assumes "submitDecryptedResults env pid enc prf s = Inr s'"
  shows "options (polls s pid) \<noteq> []"
    and "finalized (polls s pid)"
    and "\<not> resultsSubmitted (polls s pid)"
    and "checkSignatures env (encryptedCounts (polls s pid)) enc prf"
    and "length enc = length (encryptedCounts (polls s pid)) * 32"
    and "\<forall>i < length (encryptedCounts (polls s pid)). mload enc (i * 32) \<le> 0xFFFFFFFF"
    and "s' = s\<lparr>polls := (polls s)(pid := (polls s pid)
                   \<lparr>decryptedCounts := map (\<lambda>i. ucast (mload enc (i * 32)))
                                          [0..<length (encryptedCounts (polls s pid))],
                    encodedClearResults := enc, decryptionProof := prf,
                    resultsSubmitted := True\<rparr>),
                events := events s @ [ResultsPublished pid
                   (map (\<lambda>i. ucast (mload enc (i * 32)))
                      [0..<length (encryptedCounts (polls s pid))])]\<rparr>"
  using assms
  by (auto simp: submitDecryptedResults_def ensurePollExists_def decodeClearValues_def Let_def
      pushCounts_Inr map_nth comp_def
      split: if_splits sum.splits)

section \<open>The invariants hold along every history\<close>

lemma body_Inr_cases:
  assumes "body env s t = Inr s'"
  obtains
    (create) ttl descr opts start en pid where "call t = CreatePoll ttl descr opts start en"
      "createPoll (timestamp t) (sender t) ttl descr opts start en s = Inr (s', pid)"
  | (vote) pid h pf where "call t = SubmitVote pid h pf"
      "submitVote env (timestamp t) (sender t) pid h pf s = Inr s'"
  | (finalize) pid where "call t = FinalizePoll pid"
      "finalizePoll env (timestamp t) (sender t) pid s = Inr s'"
  | (publish) pid enc pf where "call t = SubmitDecryptedResults pid enc pf"
      "submitDecryptedResults env pid enc pf s = Inr s'"
  using assms
  by (cases "call t") (auto simp: body_def map_sum_def split: sum.splits)

lemma exec_cases:
  obtains (reverted) e where "body env s t = Inl e" "exec env s t = (s, Reverted e)"
  | (succeeded) s' where "body env s t = Inr s'" "exec env s t = (s', Succeeded)"
  by (cases "body env s t") (auto simp: exec_def)

lemma structural_deployed: "structural deployed"
  by (simp add: structural_def deployed_def)

lemma structural_body:
  assumes "structural s" "body env s t = Inr s'"
  shows "structural s'"
  using assms(2)
proof (cases rule: body_Inr_cases)
  case (create ttl descr opts start en pid)
  note eff = createPoll_Inr [OF create(2)]
  have z: "polls s (pollCount s) = zeroPoll"
    using assms(1) by (auto simp: structural_def split: if_splits)
  show ?thesis
    using assms(1) eff(2-8)
    apply (simp only: eff(9) z)
    apply (auto simp: structural_def word_less_succ zeroPoll_def wfPoll_def MIN_OPTIONS_def MAX_OPTIONS_def split: if_splits)
    done
next
  case (vote pid h pf)
  note eff = submitVote_Inr [OF vote(2)]
  from eff(5) obtain choice counts where
    av: "addVote choice [0..<length (options (polls s pid))] (encryptedCounts (polls s pid)) = Inr counts"
    and s': "s' = s\<lparr>pollVotes := (pollVotes s)(pid := (pollVotes s pid)(sender t := True)),
                  polls := (polls s)(pid := (polls s pid)\<lparr>encryptedCounts := counts\<rparr>),
                  events := events s @ [VoteSubmitted pid (sender t)]\<rparr>" by blast
  have ex: "pid < pollCount s"
    using assms(1) eff(1) by (auto simp: structural_def zeroPoll_def split: if_splits)
  then have wf: "wfPoll (polls s pid)" using assms(1) by (auto simp: structural_def split: if_splits)
  then have "length (options (polls s pid)) \<le> length (encryptedCounts (polls s pid))" by (simp add: wfPoll_def)
  from addVote_upt [OF this, of choice 0] av have len: "length counts = length (encryptedCounts (polls s pid))"
    by auto
  show ?thesis
    using assms(1) ex wf len
    by (auto simp: s' structural_def wfPoll_def split: if_splits)
next
  case (finalize pid)
  note eff = finalizePoll_Inr [OF finalize(2)]
  have ex: "pid < pollCount s"
    using assms(1) eff(1) by (auto simp: structural_def zeroPoll_def split: if_splits)
  show ?thesis
    using assms(1) ex
    by (auto simp: eff(4) structural_def wfPoll_def split: if_splits)
next
  case (publish pid enc pf)
  note eff = submitDecryptedResults_Inr [OF publish(2)]
  have ex: "pid < pollCount s"
    using assms(1) eff(1) by (auto simp: structural_def zeroPoll_def split: if_splits)
  show ?thesis
    using assms(1) ex eff(2)
    by (auto simp: eff(7) structural_def wfPoll_def split: if_splits)
qed

lemma announced_deployed: "announced deployed"
  by (simp add: announced_def deployed_def)

lemma announced_body:
  assumes "announced s" "body env s t = Inr s'"
  shows "announced s'"
  using assms(2)
proof (cases rule: body_Inr_cases)
  case (create ttl descr opts start en pid)
  note eff = createPoll_Inr [OF create(2)]
  show ?thesis
    using assms(1) eff(2)
    by (auto simp: eff(9) announced_def word_less_succ)
next
  case (vote pid h pf)
  from submitVote_Inr(5) [OF vote(2)] show ?thesis
    using assms(1) by (auto simp: announced_def)
next
  case (finalize pid)
  show ?thesis
    using assms(1) by (auto simp: finalizePoll_Inr(4) [OF finalize(2)] announced_def)
next
  case (publish pid enc pf)
  show ?thesis
    using assms(1) by (auto simp: submitDecryptedResults_Inr(7) [OF publish(2)] announced_def)
qed

lemma cast_reverted: "body env s t = Inl e \<Longrightarrow> cast env s t = []"
  by (auto simp: cast_def exec_def split: call.splits option.splits)

lemma cast_create: "call t = CreatePoll ttl descr opts start en \<Longrightarrow> cast env s t = []"
  by (simp add: cast_def)

lemma cast_finalize: "call t = FinalizePoll pid \<Longrightarrow> cast env s t = []"
  by (simp add: cast_def)

lemma cast_publish: "call t = SubmitDecryptedResults pid enc pf \<Longrightarrow> cast env s t = []"
  by (simp add: cast_def)

lemma cast_vote:
  assumes "call t = SubmitVote pid h pf" "body env s t = Inr s'"
    "fromExternal env (sender t) h pf = Some choice"
  shows "cast env s t = [(pid, sender t, plaintext choice)]"
  using assms by (simp add: cast_def exec_def)

lemma votesFor_none:
  assumes "set (voters w pid) = {}"
  shows "votesFor w pid i = 0"
proof -
  have "filter (\<lambda>b. fst b = pid) (ballots w) = []"
    using assms unfolding voters_def by (simp only: set_empty map_is_Nil_conv)
  moreover have "filter (\<lambda>b. fst b = pid \<and> unat (snd (snd b)) = i) (ballots w)
     = filter (\<lambda>b. unat (snd (snd b)) = i) (filter (\<lambda>b. fst b = pid) (ballots w))"
    by simp
  ultimately show ?thesis by (simp only: votesFor_def list.size filter.simps)
qed

lemma of_nat_eq_small:
  fixes c :: uint32
  assumes "i < 2 ^ 32"
  shows "c = of_nat i \<longleftrightarrow> unat c = i"
proof
  assume "c = of_nat i"
  then show "unat c = i" using assms by (simp add: unat_of_nat)
next
  assume "unat c = i"
  then show "c = of_nat i" by auto
qed

lemma historicalI:
  assumes "\<And>pid. finalized (polls (contract w) pid) \<Longrightarrow>
              ucast (endTime (polls (contract w) pid)) < clock w"
    and "\<And>pid v. pollVotes (contract w) pid v \<Longrightarrow>
              ucast (startTime (polls (contract w) pid)) \<le> clock w"
    and "\<And>pid. distinct (voters w pid)"
    and "\<And>pid. set (voters w pid) = {v. pollVotes (contract w) pid v}"
    and "\<And>pid i. i < length (encryptedCounts (polls (contract w) pid)) \<Longrightarrow>
              plaintext (encryptedCounts (polls (contract w) pid) ! i) = of_nat (votesFor w pid i)"
    and "\<And>pid. voters w pid \<noteq> [] \<Longrightarrow>
              Uninitialized \<notin> set (encryptedCounts (polls (contract w) pid))"
  shows "historical w"
  using assms unfolding historical_def by blast

lemma historicalD:
  assumes "historical w"
  shows "finalized (polls (contract w) pid) \<Longrightarrow> ucast (endTime (polls (contract w) pid)) < clock w"
    and "pollVotes (contract w) pid v \<Longrightarrow> ucast (startTime (polls (contract w) pid)) \<le> clock w"
    and "distinct (voters w pid)"
    and "set (voters w pid) = {v. pollVotes (contract w) pid v}"
    and "i < length (encryptedCounts (polls (contract w) pid)) \<Longrightarrow>
           plaintext (encryptedCounts (polls (contract w) pid) ! i) = of_nat (votesFor w pid i)"
    and "voters w pid \<noteq> [] \<Longrightarrow> Uninitialized \<notin> set (encryptedCounts (polls (contract w) pid))"
  using assms unfolding historical_def by blast+

lemma historical_genesis: "historical genesis"
  by (rule historicalI) (simp_all add: genesis_def deployed_def zeroPoll_def voters_def)

lemma voters_clock [simp]: "voters (w\<lparr>clock := c\<rparr>) pid = voters w pid"
  by (simp add: voters_def)

lemma votesFor_clock [simp]: "votesFor (w\<lparr>clock := c\<rparr>) pid i = votesFor w pid i"
  by (simp add: votesFor_def)

lemma historical_reverted:
  assumes "historical w" "clock w \<le> timestamp t" "body env (contract w) t = Inl e"
  shows "historical (apply_tx env w t)"
proof -
  note h = historicalD [OF assms(1)]
  have w': "apply_tx env w t = w\<lparr>clock := timestamp t\<rparr>"
    using assms(3) by (simp add: apply_tx_def exec_def cast_reverted)
  show ?thesis
    unfolding w'
  proof (rule historicalI)
    fix pid assume "finalized (polls (contract (w\<lparr>clock := timestamp t\<rparr>)) pid)"
    then have "ucast (endTime (polls (contract w) pid)) < clock w" using h(1) by simp
    with assms(2) show "ucast (endTime (polls (contract (w\<lparr>clock := timestamp t\<rparr>)) pid))
        < clock (w\<lparr>clock := timestamp t\<rparr>)" by simp
  next
    fix pid v assume "pollVotes (contract (w\<lparr>clock := timestamp t\<rparr>)) pid v"
    then have "ucast (startTime (polls (contract w) pid)) \<le> clock w" using h(2) by simp
    with assms(2) show "ucast (startTime (polls (contract (w\<lparr>clock := timestamp t\<rparr>)) pid))
        \<le> clock (w\<lparr>clock := timestamp t\<rparr>)" by simp
  qed (use h(3-6) in simp_all)
qed

lemma apply_tx_succeeded:
  assumes "body env (contract w) t = Inr s'"
  shows "apply_tx env w t = \<lparr>clock = timestamp t, contract = s', ballots = ballots w @ cast env (contract w) t\<rparr>"
  using assms by (simp add: apply_tx_def exec_def)

lemma voters_same_ballots:
  "ballots w' = ballots w \<Longrightarrow> voters w' pid = voters w pid"
  by (simp add: voters_def)

lemma votesFor_same_ballots:
  "ballots w' = ballots w \<Longrightarrow> votesFor w' pid i = votesFor w pid i"
  by (simp add: votesFor_def)

lemma historical_create:
  assumes st: "structural (contract w)" and h: "historical w" and mono: "clock w \<le> timestamp t"
    and c: "call t = CreatePoll ttl descr opts start en"
    and r: "createPoll (timestamp t) (sender t) ttl descr opts start en (contract w) = Inr (s', pid)"
    and b: "body env (contract w) t = Inr s'"
  shows "historical (apply_tx env w t)"
proof -
  note eff = createPoll_Inr [OF r]
  note hd = historicalD [OF h]
  let ?pc = "pollCount (contract w)"
  let ?w' = "\<lparr>clock = timestamp t, contract = s', ballots = ballots w\<rparr>"
  have z: "polls (contract w) ?pc = zeroPoll" and nv: "\<And>v. \<not> pollVotes (contract w) ?pc v"
    using st by (auto simp: structural_def split: if_splits)
  have ne: "set (voters w ?pc) = {}" using hd(4) [of ?pc] nv by simp
  then have v0: "\<And>i. votesFor w ?pc i = 0" by (rule votesFor_none)
  have w': "apply_tx env w t = ?w'"
    by (simp add: apply_tx_succeeded [OF b] cast_create [OF c])
  have vs: "voters ?w' q = voters w q" and vf: "votesFor ?w' q i = votesFor w q i" for q i
    by (simp_all add: voters_def votesFor_def)
  have pv: "pollVotes s' = pollVotes (contract w)" by (simp add: eff(9))
  have other: "polls s' q = polls (contract w) q" if "q \<noteq> ?pc" for q
    using that by (simp add: eff(9))
  have new: "finalized (polls s' ?pc) = False"
    "encryptedCounts (polls s' ?pc) = replicate (length opts) Uninitialized"
    by (simp_all add: eff(9) z zeroPoll_def)
  show ?thesis
    unfolding w'
  proof (rule historicalI)
    fix q assume f: "finalized (polls (contract ?w') q)"
    with new(1) have q: "q \<noteq> ?pc" by auto
    from f other [OF q] have "finalized (polls (contract w) q)" by simp
    with hd(1) [of q] mono other [OF q] show "ucast (endTime (polls (contract ?w') q)) < clock ?w'"
      by simp
  next
    fix q v assume "pollVotes (contract ?w') q v"
    then have v: "pollVotes (contract w) q v" by (simp add: pv)
    with nv have "q \<noteq> ?pc" by auto
    with hd(2) [OF v] mono other [of q]
    show "ucast (startTime (polls (contract ?w') q)) \<le> clock ?w'" by simp
  next
    fix q show "distinct (voters ?w' q)" using hd(3) [of q] by (simp add: vs)
  next
    fix q show "set (voters ?w' q) = {v. pollVotes (contract ?w') q v}"
      using hd(4) [of q] by (simp add: vs pv)
  next
    fix q i assume i: "i < length (encryptedCounts (polls (contract ?w') q))"
    show "plaintext (encryptedCounts (polls (contract ?w') q) ! i) = of_nat (votesFor ?w' q i)"
    proof (cases "q = ?pc")
      case True
      with i show ?thesis by (simp add: new(2) vf v0)
    next
      case False
      with i hd(5) [of i q] other [of q] show ?thesis by (simp add: vf)
    qed
  next
    fix q assume "voters ?w' q \<noteq> []"
    then have v: "voters w q \<noteq> []" by (simp add: vs)
    with ne have "q \<noteq> ?pc" by auto
    with hd(6) [OF v] other [of q]
    show "Uninitialized \<notin> set (encryptedCounts (polls (contract ?w') q))" by simp
  qed
qed

lemma historical_finalize:
  assumes h: "historical w" and mono: "clock w \<le> timestamp t"
    and c: "call t = FinalizePoll pid"
    and r: "finalizePoll env (timestamp t) (sender t) pid (contract w) = Inr s'"
    and b: "body env (contract w) t = Inr s'"
  shows "historical (apply_tx env w t)"
proof -
  note eff = finalizePoll_Inr [OF r]
  note hd = historicalD [OF h]
  let ?w' = "\<lparr>clock = timestamp t, contract = s', ballots = ballots w\<rparr>"
  have w': "apply_tx env w t = ?w'"
    by (simp add: apply_tx_succeeded [OF b] cast_finalize [OF c])
  have vs: "voters ?w' q = voters w q" and vf: "votesFor ?w' q i = votesFor w q i" for q i
    by (simp_all add: voters_def votesFor_def)
  have pv: "pollVotes s' = pollVotes (contract w)" by (simp add: eff(4))
  have same: "encryptedCounts (polls s' q) = encryptedCounts (polls (contract w) q)"
    "startTime (polls s' q) = startTime (polls (contract w) q)"
    "endTime (polls s' q) = endTime (polls (contract w) q)" for q
    by (simp_all add: eff(4))
  have fin: "finalized (polls s' q) \<longleftrightarrow> q = pid \<or> finalized (polls (contract w) q)" for q
    by (simp add: eff(4))
  show ?thesis
    unfolding w'
  proof (rule historicalI)
    fix q assume "finalized (polls (contract ?w') q)"
    then consider "q = pid" | "finalized (polls (contract w) q)" using fin [of q] by auto
    then show "ucast (endTime (polls (contract ?w') q)) < clock ?w'"
    proof cases
      case 1
      with eff(2) show ?thesis by (simp add: same)
    next
      case 2
      with hd(1) [of q] mono show ?thesis by (simp add: same)
    qed
  next
    fix q v assume "pollVotes (contract ?w') q v"
    then have v: "pollVotes (contract w) q v" by (simp add: pv)
    with hd(2) [OF v] mono
    show "ucast (startTime (polls (contract ?w') q)) \<le> clock ?w'" by (simp add: same)
  next
    fix q show "distinct (voters ?w' q)" using hd(3) [of q] by (simp add: vs)
  next
    fix q show "set (voters ?w' q) = {v. pollVotes (contract ?w') q v}"
      using hd(4) [of q] by (simp add: vs pv)
  next
    fix q i assume "i < length (encryptedCounts (polls (contract ?w') q))"
    with hd(5) [of i q]
    show "plaintext (encryptedCounts (polls (contract ?w') q) ! i) = of_nat (votesFor ?w' q i)"
      by (simp add: vf same)
  next
    fix q assume "voters ?w' q \<noteq> []"
    with hd(6) [of q]
    show "Uninitialized \<notin> set (encryptedCounts (polls (contract ?w') q))"
      by (simp add: vs same)
  qed
qed

lemma historical_publish:
  assumes h: "historical w" and mono: "clock w \<le> timestamp t"
    and c: "call t = SubmitDecryptedResults pid enc pf"
    and r: "submitDecryptedResults env pid enc pf (contract w) = Inr s'"
    and b: "body env (contract w) t = Inr s'"
  shows "historical (apply_tx env w t)"
proof -
  note eff = submitDecryptedResults_Inr [OF r]
  note hd = historicalD [OF h]
  let ?w' = "\<lparr>clock = timestamp t, contract = s', ballots = ballots w\<rparr>"
  have w': "apply_tx env w t = ?w'"
    by (simp add: apply_tx_succeeded [OF b] cast_publish [OF c])
  have vs: "voters ?w' q = voters w q" and vf: "votesFor ?w' q i = votesFor w q i" for q i
    by (simp_all add: voters_def votesFor_def)
  have pv: "pollVotes s' = pollVotes (contract w)" by (simp add: eff(7))
  have same: "encryptedCounts (polls s' q) = encryptedCounts (polls (contract w) q)"
    "startTime (polls s' q) = startTime (polls (contract w) q)"
    "endTime (polls s' q) = endTime (polls (contract w) q)"
    "finalized (polls s' q) = finalized (polls (contract w) q)" for q
    by (simp_all add: eff(7))
  show ?thesis
    unfolding w'
  proof (rule historicalI)
    fix q assume "finalized (polls (contract ?w') q)"
    with hd(1) [of q] mono show "ucast (endTime (polls (contract ?w') q)) < clock ?w'"
      by (simp add: same)
  next
    fix q v assume "pollVotes (contract ?w') q v"
    then have v: "pollVotes (contract w) q v" by (simp add: pv)
    with hd(2) [OF v] mono
    show "ucast (startTime (polls (contract ?w') q)) \<le> clock ?w'" by (simp add: same)
  next
    fix q show "distinct (voters ?w' q)" using hd(3) [of q] by (simp add: vs)
  next
    fix q show "set (voters ?w' q) = {v. pollVotes (contract ?w') q v}"
      using hd(4) [of q] by (simp add: vs pv)
  next
    fix q i assume "i < length (encryptedCounts (polls (contract ?w') q))"
    with hd(5) [of i q]
    show "plaintext (encryptedCounts (polls (contract ?w') q) ! i) = of_nat (votesFor ?w' q i)"
      by (simp add: vf same)
  next
    fix q assume "voters ?w' q \<noteq> []"
    with hd(6) [of q]
    show "Uninitialized \<notin> set (encryptedCounts (polls (contract ?w') q))"
      by (simp add: vs same)
  qed
qed

lemma historical_vote:
  assumes st: "structural (contract w)" and h: "historical w" and mono: "clock w \<le> timestamp t"
    and c: "call t = SubmitVote pid hdl pf"
    and r: "submitVote env (timestamp t) (sender t) pid hdl pf (contract w) = Inr s'"
    and b: "body env (contract w) t = Inr s'"
  shows "historical (apply_tx env w t)"
proof -
  let ?s = "contract w"
  let ?p = "polls ?s pid"
  note eff = submitVote_Inr [OF r]
  note hd = historicalD [OF h]
  from eff(5) obtain choice counts where
    fe: "fromExternal env (sender t) hdl pf = Some choice"
    and av: "addVote choice [0..<length (options ?p)] (encryptedCounts ?p) = Inr counts"
    and s': "s' = ?s\<lparr>pollVotes := (pollVotes ?s)(pid := (pollVotes ?s pid)(sender t := True)),
                  polls := (polls ?s)(pid := ?p\<lparr>encryptedCounts := counts\<rparr>),
                  events := events ?s @ [VoteSubmitted pid (sender t)]\<rparr>" by blast
  have ex: "pid < pollCount ?s"
    using st eff(1) by (auto simp: structural_def zeroPoll_def split: if_splits)
  then have wf: "wfPoll ?p" using st by (auto simp: structural_def split: if_splits)
  then have len: "length (options ?p) = length (encryptedCounts ?p)"
    and le4: "length (encryptedCounts ?p) \<le> 4"
    by (simp_all add: wfPoll_def MAX_OPTIONS_def)
  have counts: "counts = map (\<lambda>j. Encrypted (plaintext (encryptedCounts ?p ! j) +
                                    (if plaintext choice = of_nat j then 1 else 0)))
                           [0..<length (encryptedCounts ?p)]"
    using addVote_upt [of "length (options ?p)" "encryptedCounts ?p" choice 0] av len
    by (auto intro!: nth_equalityI)
  let ?w' = "\<lparr>clock = timestamp t, contract = s',
              ballots = ballots w @ [(pid, sender t, plaintext choice)]\<rparr>"
  have w': "apply_tx env w t = ?w'"
    by (simp add: apply_tx_succeeded [OF b] cast_vote [OF c b fe])
  have nv: "sender t \<notin> set (voters w pid)"
    using hd(4) [of pid] eff(4) by simp
  have vs: "voters ?w' q = (if q = pid then voters w pid @ [sender t] else voters w q)" for q
    by (simp add: voters_def)
  have other: "polls s' q = polls ?s q" if "q \<noteq> pid" for q
    using that by (simp add: s')
  have same: "startTime (polls s' q) = startTime (polls ?s q)"
    "endTime (polls s' q) = endTime (polls ?s q)"
    "finalized (polls s' q) = finalized (polls ?s q)" for q
    by (simp_all add: s')
  show ?thesis
    unfolding w'
  proof (rule historicalI)
    fix q assume "finalized (polls (contract ?w') q)"
    with hd(1) [of q] mono show "ucast (endTime (polls (contract ?w') q)) < clock ?w'"
      by (simp add: same)
  next
    fix q v assume v: "pollVotes (contract ?w') q v"
    show "ucast (startTime (polls (contract ?w') q)) \<le> clock ?w'"
    proof (cases "q = pid \<and> v = sender t")
      case True
      with eff(2) show ?thesis by (simp add: same)
    next
      case False
      with v have "pollVotes ?s q v" by (auto simp: s' split: if_splits)
      with hd(2) [of q v] mono show ?thesis by (simp add: same)
    qed
  next
    fix q show "distinct (voters ?w' q)" using hd(3) [of q] hd(3) [of pid] nv by (simp add: vs)
  next
    fix q
    have pv: "pollVotes s' q v \<longleftrightarrow> (q = pid \<and> v = sender t) \<or> pollVotes ?s q v" for v
      by (simp add: s')
    show "set (voters ?w' q) = {v. pollVotes (contract ?w') q v}"
      using hd(4) [of q] hd(4) [of pid] by (auto simp: vs pv)
  next
    fix q i assume i: "i < length (encryptedCounts (polls (contract ?w') q))"
    show "plaintext (encryptedCounts (polls (contract ?w') q) ! i) = of_nat (votesFor ?w' q i)"
    proof (cases "q = pid")
      case False
      then show ?thesis using hd(5) [of i q] i other [of q] by (simp add: votesFor_def)
    next
      case True
      have i': "i < length (encryptedCounts ?p)" using i True by (simp add: s' counts)
      then have "i < 2 ^ 32" using le4 by simp
      then have eq: "plaintext choice = of_nat i \<longleftrightarrow> unat (plaintext choice) = i"
        by (rule of_nat_eq_small)
      have old: "plaintext (encryptedCounts ?p ! i) = of_nat (votesFor w pid i)"
        using hd(5) [OF i'] .
      show ?thesis
        using i' True old eq by (simp add: s' counts votesFor_def)
    qed
  next
    fix q assume ne: "voters ?w' q \<noteq> []"
    show "Uninitialized \<notin> set (encryptedCounts (polls (contract ?w') q))"
    proof (cases "q = pid")
      case True
      then show ?thesis by (auto simp: s' counts)
    next
      case False
      with ne have "voters w q \<noteq> []" by (simp add: vs)
      with hd(6) [of q] other [OF False] show ?thesis by simp
    qed
  qed
qed

lemma historical_step:
  assumes "structural (contract w)" "historical w" "clock w \<le> timestamp t"
  shows "historical (apply_tx env w t)"
proof (cases rule: exec_cases [of env "contract w" t])
  case (reverted e)
  then show ?thesis using assms historical_reverted by blast
next
  case (succeeded s')
  from succeeded(1) show ?thesis
  proof (cases rule: body_Inr_cases)
    case (create ttl descr opts start en pid)
    then show ?thesis using assms succeeded(1) historical_create by blast
  next
    case (vote pid h pf)
    then show ?thesis using assms succeeded(1) historical_vote by blast
  next
    case (finalize pid)
    then show ?thesis using assms succeeded(1) historical_finalize by blast
  next
    case (publish pid enc pf)
    then show ?thesis using assms succeeded(1) historical_publish by blast
  qed
qed

lemma published_genesis: "published genesis"
  by (simp add: published_def genesis_def deployed_def zeroPoll_def)

lemma ucast_down_up_32:
  fixes x :: uint32
  shows "(ucast (ucast x :: uint256) :: uint32) = x"
  by (simp add: ucast_up_ucast_id is_up)

lemma published_step:
  assumes st: "structural (contract w)" and h: "historical w" and p: "published w"
    and snd: "sound env" and mono: "clock w \<le> timestamp t"
  shows "published (apply_tx env w t)"
proof (cases rule: exec_cases [of env "contract w" t])
  case (reverted e)
  then show ?thesis using p by (simp add: published_def apply_tx_def)
next
  case (succeeded s')
  have c: "contract (apply_tx env w t) = s'"
    using succeeded(2) by (simp add: apply_tx_def)
  from succeeded(1) show ?thesis
  proof (cases rule: body_Inr_cases)
    case (create ttl descr opts start en pid)
    note eff = createPoll_Inr [OF create(2)]
    have z: "polls (contract w) (pollCount (contract w)) = zeroPoll"
      using st by (auto simp: structural_def split: if_splits)
    show ?thesis
      using p by (simp add: published_def c eff(9) z zeroPoll_def)
  next
    case (vote pid hdl pf)
    note eff = submitVote_Inr [OF vote(2)]
    have ex: "pid < pollCount (contract w)"
      using st eff(1) by (auto simp: structural_def zeroPoll_def split: if_splits)
    then have wf: "wfPoll (polls (contract w) pid)"
      using st by (auto simp: structural_def split: if_splits)
    have "\<not> finalized (polls (contract w) pid)"
    proof
      assume "finalized (polls (contract w) pid)"
      then have "ucast (endTime (polls (contract w) pid)) < clock w"
        by (rule historicalD(1) [OF h])
      with mono eff(3) show False by simp
    qed
    then have nr: "\<not> resultsSubmitted (polls (contract w) pid)"
      using wf by (auto simp: wfPoll_def)
    from eff(5) show ?thesis
      using p nr by (auto simp: published_def c)
  next
    case (finalize pid)
    show ?thesis
      using p by (simp add: published_def c finalizePoll_Inr(4) [OF finalize(2)])
  next
    case (publish pid enc pf)
    note eff = submitDecryptedResults_Inr [OF publish(2)]
    let ?hs = "encryptedCounts (polls (contract w) pid)"
    have "\<forall>i < length ?hs. mload enc (i * 32) = ucast (plaintext (?hs ! i))"
      using snd eff(4) unfolding sound_def by blast
    then have "map (\<lambda>i. ucast (mload enc (i * 32)) :: uint32) [0..<length ?hs] = map plaintext ?hs"
      by (auto intro!: nth_equalityI simp: ucast_down_up_32)
    then show ?thesis
      using p by (simp add: published_def c eff(7))
  qed
qed

lemma run_Nil: "run env [] = genesis"
  by (simp add: run_def)

lemma run_snoc: "run env (txs @ [t]) = apply_tx env (run env txs) t"
  by (simp add: run_def)

lemma clock_apply_tx: "clock (apply_tx env w t) = timestamp t"
  by (simp add: apply_tx_def)

lemma chronological_snoc:
  assumes "chronological (txs @ [t])"
  shows "chronological txs" and "clock (run env txs) \<le> timestamp t"
proof -
  show "chronological txs"
    using assms by (simp add: chronological_def sorted_append)
  show "clock (run env txs) \<le> timestamp t"
  proof (cases txs rule: rev_cases)
    case Nil
    then show ?thesis by (simp add: run_Nil genesis_def)
  next
    case (snoc ys y)
    then show ?thesis
      using assms by (simp add: run_snoc clock_apply_tx chronological_def sorted_append)
  qed
qed

lemma structural_apply_tx:
  assumes "structural (contract w)"
  shows "structural (contract (apply_tx env w t))"
  by (cases rule: exec_cases [of env "contract w" t])
     (use assms structural_body in \<open>auto simp: apply_tx_def\<close>)

lemma announced_apply_tx:
  assumes "announced (contract w)"
  shows "announced (contract (apply_tx env w t))"
  by (cases rule: exec_cases [of env "contract w" t])
     (use assms announced_body in \<open>auto simp: apply_tx_def\<close>)

lemma structural_run: "structural (contract (run env txs))"
  by (induction txs rule: rev_induct)
     (simp_all add: run_Nil run_snoc genesis_def structural_deployed structural_apply_tx)

lemma announced_run: "announced (contract (run env txs))"
  by (induction txs rule: rev_induct)
     (simp_all add: run_Nil run_snoc genesis_def announced_deployed announced_apply_tx)

lemma historical_run: "chronological txs \<Longrightarrow> historical (run env txs)"
proof (induction txs rule: rev_induct)
  case Nil
  show ?case by (simp add: run_Nil historical_genesis)
next
  case (snoc t txs)
  from chronological_snoc [OF snoc.prems] snoc.IH show ?case
    by (simp add: run_snoc historical_step structural_run)
qed

lemma published_run: "sound env \<Longrightarrow> chronological txs \<Longrightarrow> published (run env txs)"
proof (induction txs rule: rev_induct)
  case Nil
  show ?case by (simp add: run_Nil published_genesis)
next
  case (snoc t txs)
  from chronological_snoc [OF snoc.prems(2)] snoc.IH snoc.prems(1) show ?case
    by (simp add: run_snoc published_step structural_run historical_run)
qed

subsection \<open>Summing the counters\<close>

lemma length_filter_less_Suc:
  "length (filter (\<lambda>b. P b \<and> f b < Suc n) xs) =
     length (filter (\<lambda>b. P b \<and> f b < n) xs) + length (filter (\<lambda>b. P b \<and> f b = n) xs)"
  by (induction xs) (auto simp: less_Suc_eq)

lemma sum_votes:
  "sum_list (map (\<lambda>i. length (filter (\<lambda>b. P b \<and> f b = i) xs)) [0..<n]) =
     length (filter (\<lambda>b. P b \<and> f b < n) xs)"
  by (induction n) (simp_all add: length_filter_less_Suc)

lemma votesFor_le:
  "i < length (options (polls (contract w) pid)) \<Longrightarrow> votesFor w pid i \<le> length (validBallots w pid)"
proof -
  assume i: "i < length (options (polls (contract w) pid))"
  have "filter (\<lambda>b. fst b = pid \<and> unat (snd (snd b)) = i) (ballots w) =
        filter (\<lambda>b. unat (snd (snd b)) = i) (validBallots w pid)"
    using i by (auto simp: validBallots_def intro: filter_cong)
  then show ?thesis by (simp add: votesFor_def)
qed

lemma tally_sum:
  assumes st: "structural (contract w)" and h: "historical w"
    and small: "length (validBallots w pid) < 2 ^ 32"
  shows "sum_list (map unat (map plaintext (encryptedCounts (polls (contract w) pid))))
           = length (validBallots w pid)"
proof -
  let ?p = "polls (contract w) pid"
  let ?cs = "map plaintext (encryptedCounts ?p)"
  have len: "length (encryptedCounts ?p) = length (options ?p)"
    using st by (auto simp: structural_def wfPoll_def zeroPoll_def split: if_splits)
  have "map unat ?cs = map (votesFor w pid) [0..<length (options ?p)]"
  proof (rule nth_equalityI)
    show "length (map unat ?cs) = length (map (votesFor w pid) [0..<length (options ?p)])"
      by (simp add: len)
  next
    fix i assume "i < length (map unat ?cs)"
    then have i: "i < length (options ?p)" and i': "i < length (encryptedCounts ?p)"
      by (simp_all add: len)
    have "votesFor w pid i < 2 ^ 32" using votesFor_le [OF i] small by simp
    then have "unat (of_nat (votesFor w pid i) :: uint32) = votesFor w pid i"
      by (simp add: unat_of_nat)
    moreover have "plaintext (encryptedCounts ?p ! i) = of_nat (votesFor w pid i)"
      by (rule historicalD(5) [OF h i'])
    ultimately show "map unat ?cs ! i = map (votesFor w pid) [0..<length (options ?p)] ! i"
      using i i' by simp
  qed
  then have "sum_list (map unat ?cs) = sum_list (map (votesFor w pid) [0..<length (options ?p)])"
    by simp
  also have "\<dots> = length (validBallots w pid)"
    unfolding votesFor_def validBallots_def by (rule sum_votes)
  finally show ?thesis .
qed

subsection \<open>Reading the structural invariant\<close>

lemma structural_wfPoll:
  assumes "structural s" "pid < pollCount s"
  shows "wfPoll (polls s pid)"
proof -
  from assms(1) have "if pid < pollCount s then wfPoll (polls s pid)
      else polls s pid = zeroPoll \<and> (\<forall>v. \<not> pollVotes s pid v)"
    unfolding structural_def by (rule spec)
  with assms(2) show ?thesis by simp
qed

lemma structural_fresh:
  assumes "structural s" "\<not> pid < pollCount s"
  shows "polls s pid = zeroPoll" and "\<not> pollVotes s pid v"
proof -
  from assms(1) have "if pid < pollCount s then wfPoll (polls s pid)
      else polls s pid = zeroPoll \<and> (\<forall>v. \<not> pollVotes s pid v)"
    unfolding structural_def by (rule spec)
  with assms(2) show "polls s pid = zeroPoll" and "\<not> pollVotes s pid v" by simp_all
qed

lemma structural_exists:
  assumes "structural s"
  shows "options (polls s pid) \<noteq> [] \<longleftrightarrow> pid < pollCount s"
proof (cases "pid < pollCount s")
  case True
  with structural_wfPoll [OF assms True] show ?thesis
    by (auto simp: wfPoll_def MIN_OPTIONS_def)
next
  case False
  with structural_fresh(1) [OF assms False] show ?thesis
    by (simp add: zeroPoll_def)
qed

lemma addVote_total:
  assumes "n \<le> length counts"
  shows "\<exists>counts'. addVote c [0..<n] counts = Inr counts'"
  using addVote_upt [OF assms, of c 0] by blast

subsection \<open>One finalization event for each finalized poll\<close>

lemma finalizedOnce_deployed: "finalizedOnce deployed"
  by (simp add: finalizedOnce_def finalizations_def deployed_def zeroPoll_def)

lemma finalizedOnce_body:
  assumes st: "structural s" and f: "finalizedOnce s" and b: "body env s t = Inr s'"
  shows "finalizedOnce s'"
  using b
proof (cases rule: body_Inr_cases)
  case (create ttl descr opts start en pid)
  note eff = createPoll_Inr [OF create(2)]
  have z: "polls s (pollCount s) = zeroPoll"
    using structural_fresh(1) [OF st, of "pollCount s"] by simp
  have "finalizations s (pollCount s) = 0"
    using f z by (simp add: finalizedOnce_def zeroPoll_def)
  then show ?thesis
    using f by (auto simp: eff(9) finalizedOnce_def finalizations_def z zeroPoll_def)
next
  case (vote pid h pf)
  from submitVote_Inr(5) [OF vote(2)] obtain counts where
    "s' = s\<lparr>pollVotes := (pollVotes s)(pid := (pollVotes s pid)(sender t := True)),
              polls := (polls s)(pid := (polls s pid)\<lparr>encryptedCounts := counts\<rparr>),
              events := events s @ [VoteSubmitted pid (sender t)]\<rparr>" by blast
  then show ?thesis
    using f by (simp add: finalizedOnce_def finalizations_def)
next
  case (finalize pid)
  note eff = finalizePoll_Inr [OF finalize(2)]
  show ?thesis
    using f eff(3) by (auto simp: eff(4) finalizedOnce_def finalizations_def)
next
  case (publish pid enc pf)
  show ?thesis
    using f by (auto simp: submitDecryptedResults_Inr(7) [OF publish(2)] finalizedOnce_def finalizations_def)
qed

lemma finalizedOnce_run: "finalizedOnce (contract (run env txs))"
proof (induction txs rule: rev_induct)
  case Nil
  show ?case by (simp add: run_Nil genesis_def finalizedOnce_deployed)
next
  case (snoc t txs)
  show ?case
    by (cases rule: exec_cases [of env "contract (run env txs)" t])
       (use snoc.IH finalizedOnce_body [OF structural_run] in \<open>auto simp: run_snoc apply_tx_def\<close>)
qed

lemma ucast_64_256_less:
  fixes a b :: uint64
  shows "(ucast a :: uint256) < ucast b \<longleftrightarrow> a < b"
  by (simp add: word_less_def uint_up_ucast is_up)

text \<open>
  What \<open>finalizePoll\<close> does on a created poll, along a history in which time never
  decreases: the deadline guard, the already-finalized guard, and past both the outcome
  that the encryption service decides.
\<close>

lemma finalizePoll_outcomes:
  assumes "chronological txs" and "pollId < pollCount (contract (run env txs))"
  shows "(finalizePoll env now caller pollId (contract (run env txs))
            = Inl (PollStillRunning pollId) \<longleftrightarrow>
          now \<le> ucast (endTime (polls (contract (run env txs)) pollId))) \<and>
         (ucast (endTime (polls (contract (run env txs)) pollId)) < now \<and>
          \<not> finalized (polls (contract (run env txs)) pollId) \<longrightarrow>
            (if \<forall>h \<in> set (encryptedCounts (polls (contract (run env txs)) pollId)).
                  makePubliclyDecryptable env h
             then \<exists>s'. finalizePoll env now caller pollId (contract (run env txs)) = Inr s' \<and>
                       finalized (polls s' pollId) \<and> finalizations s' pollId = 1
             else finalizePoll env now caller pollId (contract (run env txs)) = Inl LibraryRevert)) \<and>
         (finalized (polls (contract (run env txs)) pollId) \<and> clock (run env txs) \<le> now \<longrightarrow>
            finalizePoll env now caller pollId (contract (run env txs))
              = Inl (PollAlreadyFinalized pollId)) \<and>
         (\<forall>e. finalizePoll env now caller pollId (contract (run env txs)) = Inl e \<longrightarrow>
            exec env (contract (run env txs))
                \<lparr>timestamp = now, sender = caller, call = FinalizePoll pollId\<rparr>
              = (contract (run env txs), Reverted e)) \<and>
         (finalized (polls (contract (run env txs)) pollId) \<longleftrightarrow>
            finalizations (contract (run env txs)) pollId = 1) \<and>
         finalizations (contract (run env txs)) pollId \<le> 1"
proof -
  let ?s = "contract (run env txs)"
  let ?p = "polls ?s pollId"
  let ?ok = "\<forall>h \<in> set (encryptedCounts ?p). makePubliclyDecryptable env h"
  have st: "structural ?s" by (rule structural_run)
  have h: "historical (run env txs)" using assms(1) by (rule historical_run)
  have fo: "finalizations ?s pollId = (if finalized ?p then 1 else 0)"
    using finalizedOnce_run [of env txs] by (simp add: finalizedOnce_def)
  have opts: "options ?p \<noteq> []"
    using structural_exists [OF st, of pollId] assms(2) by simp
  have handles: "map (\<lambda>i. encryptedCounts ?p ! i) [0..<length (encryptedCounts ?p)]
      = encryptedCounts ?p"
    by (rule map_nth)
  have a: "finalizePoll env now caller pollId ?s = Inl (PollStillRunning pollId) \<longleftrightarrow>
            now \<le> ucast (endTime ?p)"
    using opts
    by (auto simp: finalizePoll_def ensurePollExists_def Let_def handles grantDecryption_Inl
        split: sum.splits)
  have b: "\<exists>s'. finalizePoll env now caller pollId ?s = Inr s' \<and> finalized (polls s' pollId) \<and>
             finalizations s' pollId = 1"
    if "ucast (endTime ?p) < now" "\<not> finalized ?p" ?ok
  proof -
    from that(3) have "grantDecryption env (encryptedCounts ?p) = Inr ()"
      by (simp add: grantDecryption_Inr)
    then show ?thesis
      using opts that(1,2) fo
      by (simp add: finalizePoll_def ensurePollExists_def Let_def handles finalizations_def
          not_le)
  qed
  have b': "finalizePoll env now caller pollId ?s = Inl LibraryRevert"
    if "ucast (endTime ?p) < now" "\<not> finalized ?p" "\<not> ?ok"
  proof -
    from that(3) have "grantDecryption env (encryptedCounts ?p) = Inl LibraryRevert"
      by (simp add: grantDecryption_Inl)
    then show ?thesis
      using opts that(1,2)
      by (simp add: finalizePoll_def ensurePollExists_def Let_def handles not_le)
  qed
  have c: "finalizePoll env now caller pollId ?s = Inl (PollAlreadyFinalized pollId)"
    if "finalized ?p" "clock (run env txs) \<le> now"
  proof -
    have "ucast (endTime ?p) < clock (run env txs)"
      using that(1) by (rule historicalD(1) [OF h])
    with that(2) have "\<not> now \<le> ucast (endTime ?p)" by simp
    then show ?thesis
      using opts that(1) by (simp add: finalizePoll_def ensurePollExists_def Let_def)
  qed
  have d: "\<forall>e. finalizePoll env now caller pollId ?s = Inl e \<longrightarrow>
            exec env ?s \<lparr>timestamp = now, sender = caller, call = FinalizePoll pollId\<rparr>
              = (?s, Reverted e)"
    by (simp add: exec_def body_def)
  from a b b' c d fo show ?thesis by auto
qed

text \<open>
  Once a vote has been accepted on a poll, a service that grants public decryption for
  every ciphertext lets the first call after the deadline finalize it.
\<close>

lemma finalizePoll_voted:
  assumes "chronological txs" and "voters (run env txs) pollId \<noteq> []"
    and "\<And>v. makePubliclyDecryptable env (Encrypted v)"
    and "ucast (endTime (polls (contract (run env txs)) pollId)) < now"
    and "\<not> finalized (polls (contract (run env txs)) pollId)"
  shows "\<exists>s'. finalizePoll env now caller pollId (contract (run env txs)) = Inr s' \<and>
              finalized (polls s' pollId)"
proof -
  let ?s = "contract (run env txs)"
  let ?p = "polls ?s pollId"
  have st: "structural ?s" by (rule structural_run)
  have h: "historical (run env txs)" using assms(1) by (rule historical_run)
  have "set (voters (run env txs) pollId) \<noteq> {}" using assms(2) by simp
  then obtain v where "pollVotes ?s pollId v"
    using historicalD(4) [OF h, of pollId] by auto
  then have ex: "pollId < pollCount ?s"
    using structural_fresh(2) [OF st, of pollId v] by blast
  have "Uninitialized \<notin> set (encryptedCounts ?p)"
    using assms(2) by (rule historicalD(6) [OF h])
  then have "\<forall>h \<in> set (encryptedCounts ?p). makePubliclyDecryptable env h"
    using assms(3) by (metis euint32.exhaust)
  with finalizePoll_outcomes [OF assms(1) ex, of now caller] assms(4,5) show ?thesis
    by auto
qed

subsection \<open>Decoding the published counts\<close>

lemma beUint_snoc: "beUint (bs @ [b]) = beUint bs * 256 + unat b"
proof -
  have A: "map (\<lambda>j. unat ((bs @ [b]) ! j) * 256 ^ (length bs - j)) [0..<length bs]
      = map (\<lambda>j. (unat (bs ! j) * 256 ^ (length bs - Suc j)) * 256) [0..<length bs]"
    by (auto simp: nth_append Suc_diff_Suc simp flip: power_Suc2)
  have "sum_list (map (\<lambda>j. unat ((bs @ [b]) ! j) * 256 ^ (length bs - j)) [0..<length bs])
      = sum_list (map (\<lambda>j. (unat (bs ! j) * 256 ^ (length bs - Suc j)) * 256) [0..<length bs])"
    by (simp only: A)
  also have "\<dots> = beUint bs * 256"
    by (simp only: beUint_def sum_list_mult_const)
  finally show ?thesis
    by (simp add: beUint_def)
qed

lemma beUint_bound: "beUint bs < 256 ^ length bs"
proof (induction bs rule: rev_induct)
  case Nil
  show ?case by (simp add: beUint_def)
next
  case (snoc b bs)
  have "unat b < 2 ^ LENGTH(8)" by (rule unsigned_less)
  then have "unat b < 256" by simp
  with snoc show ?case by (simp add: beUint_snoc)
qed

lemma foldl_beUint:
  "foldl (\<lambda>acc b. acc * 256 + ucast b) (0 :: uint256) bs = of_nat (beUint bs)"
proof (induction bs rule: rev_induct)
  case Nil
  show ?case by (simp add: beUint_def)
next
  case (snoc b bs)
  have "(ucast b :: uint256) = of_nat (unat b)" by simp
  with snoc show ?case by (simp add: beUint_snoc)
qed

lemma mload_word32:
  assumes "i * 32 + 32 \<le> length encoded"
  shows "unat (mload encoded (i * 32)) = word32 encoded i"
proof -
  let ?bs = "take 32 (drop (i * 32) encoded)"
  have len: "length ?bs = 32" using assms by simp
  have "beUint ?bs < 256 ^ 32" using beUint_bound [of ?bs] by (simp only: len)
  also have "(256 :: nat) ^ 32 = 2 ^ 256" by simp
  finally have "beUint ?bs < 2 ^ LENGTH(256)" by simp
  then have "unat (of_nat (beUint ?bs) :: uint256) = beUint ?bs"
    by (simp add: unat_of_nat)
  then show ?thesis
    by (simp add: mload_def word32_def foldl_beUint)
qed

lemma pushCounts_Inl:
  "pushCounts pid i ds acc = Inl e \<longleftrightarrow>
     (\<exists>k < length ds. 0xFFFFFFFF < ds ! k \<and> (\<forall>j < k. ds ! j \<le> 0xFFFFFFFF) \<and>
        e = CountExceedsLimit pid (of_nat (i + k)))"
proof (induction ds arbitrary: i acc)
  case Nil
  show ?case by simp
next
  case (Cons d ds)
  show ?case
  proof (cases "0xFFFFFFFF < d")
    case True
    have "(\<exists>k < length (d # ds). 0xFFFFFFFF < (d # ds) ! k \<and> (\<forall>j < k. (d # ds) ! j \<le> 0xFFFFFFFF) \<and>
        e = CountExceedsLimit pid (of_nat (i + k))) \<longleftrightarrow> e = CountExceedsLimit pid (of_nat i)"
    proof
      assume "\<exists>k < length (d # ds). 0xFFFFFFFF < (d # ds) ! k \<and> (\<forall>j < k. (d # ds) ! j \<le> 0xFFFFFFFF) \<and>
        e = CountExceedsLimit pid (of_nat (i + k))"
      then obtain k where k: "\<forall>j < k. (d # ds) ! j \<le> 0xFFFFFFFF"
        "e = CountExceedsLimit pid (of_nat (i + k))" by blast
      have "k = 0"
      proof (rule ccontr)
        assume "k \<noteq> 0"
        then have "(d # ds) ! 0 \<le> 0xFFFFFFFF" using k(1) by blast
        with True show False by simp
      qed
      with k(2) show "e = CountExceedsLimit pid (of_nat i)" by simp
    next
      assume "e = CountExceedsLimit pid (of_nat i)"
      with True show "\<exists>k < length (d # ds). 0xFFFFFFFF < (d # ds) ! k \<and>
        (\<forall>j < k. (d # ds) ! j \<le> 0xFFFFFFFF) \<and> e = CountExceedsLimit pid (of_nat (i + k))"
        by (intro exI [of _ 0]) simp
    qed
    with True show ?thesis by auto
  next
    case False
    then have le: "d \<le> 0xFFFFFFFF" by simp
    have "(\<exists>k < length (d # ds). 0xFFFFFFFF < (d # ds) ! k \<and> (\<forall>j < k. (d # ds) ! j \<le> 0xFFFFFFFF) \<and>
        e = CountExceedsLimit pid (of_nat (i + k))) \<longleftrightarrow>
       (\<exists>k < length ds. 0xFFFFFFFF < ds ! k \<and> (\<forall>j < k. ds ! j \<le> 0xFFFFFFFF) \<and>
        e = CountExceedsLimit pid (of_nat (Suc i + k)))"
    proof
      assume "\<exists>k < length (d # ds). 0xFFFFFFFF < (d # ds) ! k \<and> (\<forall>j < k. (d # ds) ! j \<le> 0xFFFFFFFF) \<and>
        e = CountExceedsLimit pid (of_nat (i + k))"
      then obtain k where k: "k < length (d # ds)" "0xFFFFFFFF < (d # ds) ! k"
        "\<forall>j < k. (d # ds) ! j \<le> 0xFFFFFFFF" "e = CountExceedsLimit pid (of_nat (i + k))" by blast
      from k(2) False obtain k' where k': "k = Suc k'" by (cases k) auto
      have "\<forall>j < k'. ds ! j \<le> 0xFFFFFFFF"
      proof (intro allI impI)
        fix j assume "j < k'"
        then have "Suc j < k" using k' by simp
        with k(3) have "(d # ds) ! Suc j \<le> 0xFFFFFFFF" by blast
        then show "ds ! j \<le> 0xFFFFFFFF" by simp
      qed
      with k k' show "\<exists>k < length ds. 0xFFFFFFFF < ds ! k \<and> (\<forall>j < k. ds ! j \<le> 0xFFFFFFFF) \<and>
        e = CountExceedsLimit pid (of_nat (Suc i + k))"
        by (intro exI [of _ k']) simp
    next
      assume "\<exists>k < length ds. 0xFFFFFFFF < ds ! k \<and> (\<forall>j < k. ds ! j \<le> 0xFFFFFFFF) \<and>
        e = CountExceedsLimit pid (of_nat (Suc i + k))"
      then obtain k where k: "k < length ds" "0xFFFFFFFF < ds ! k"
        "\<forall>j < k. ds ! j \<le> 0xFFFFFFFF" "e = CountExceedsLimit pid (of_nat (Suc i + k))" by blast
      have "\<forall>j < Suc k. (d # ds) ! j \<le> 0xFFFFFFFF"
        using k(3) le by (auto simp: nth_Cons split: nat.splits)
      with k show "\<exists>k < length (d # ds). 0xFFFFFFFF < (d # ds) ! k \<and>
        (\<forall>j < k. (d # ds) ! j \<le> 0xFFFFFFFF) \<and> e = CountExceedsLimit pid (of_nat (i + k))"
        by (intro exI [of _ "Suc k"]) simp
    qed
    with False Cons.IH [of "Suc i" "acc @ [ucast d]"] show ?thesis by simp
  qed
qed

lemma exceeds_iff:
  fixes d :: uint256
  shows "0xFFFFFFFF < d \<longleftrightarrow> 2 ^ 32 - 1 < unat d"
  by (simp add: word_less_nat_alt)

lemma unat_ucast_small:
  fixes d :: uint256
  assumes "d \<le> 0xFFFFFFFF"
  shows "unat (ucast d :: uint32) = unat d"
proof -
  have "unat d < 2 ^ 32" using assms by (simp add: word_le_nat_alt)
  then show ?thesis
    by (simp add: unsigned_ucast_eq take_bit_nat_eq_self)
qed

subsection \<open>The sample encryption service and the valid votes\<close>

lemma sound_honest: "sound honest"
proof -
  have "mload encoded (i * 32) = ucast (plaintext (handles ! i))"
    if "map (\<lambda>i. mload encoded (i * 32)) [0..<length handles]
          = map (\<lambda>h. ucast (plaintext h)) handles"
      and "i < length handles" for encoded i and handles :: "euint32 list"
  proof -
    from that(1) have "map (\<lambda>i. mload encoded (i * 32)) [0..<length handles] ! i
        = (map (\<lambda>h. ucast (plaintext h)) handles :: uint256 list) ! i" by simp
    with that(2) show ?thesis by simp
  qed
  then show ?thesis by (simp add: sound_def honest_def)
qed

lemma validBallots_le: "length (validBallots w pid) \<le> length (voters w pid)"
proof -
  have "length (filter (\<lambda>b. fst b = pid \<and> unat (snd (snd b)) < n) xs)
      \<le> length (filter (\<lambda>b. fst b = pid) xs)" for n and xs :: "ballot list"
    by (induction xs) auto
  then show ?thesis by (simp add: validBallots_def voters_def)
qed

section \<open>The claims\<close>

subsection \<open>C1\<close>

text \<open>
  C1, amended. At most one \<open>submitVote\<close> per poll and voter ever succeeds. When time never
  decreases, every \<open>submitVote\<close> by a voter whose vote on the poll was accepted fails and
  leaves the storage, the encrypted counters among it, unchanged: with \<open>AlreadyVoted\<close> while
  the current time is at or before the deadline, with \<open>VotingFinished\<close> once it is past it,
  since the deadline is checked first. The accepted voters of a poll are pairwise distinct.
\<close>

theorem submitVote_once:
  assumes "chronological (txs @ [t])"
    and "call t = SubmitVote pollId choice inputProof"
    and "sender t \<in> set (voters (run env txs) pollId)"
  shows "exec env (contract (run env txs)) t =
           (contract (run env txs),
            Reverted (if ucast (endTime (polls (contract (run env txs)) pollId)) < timestamp t
                      then VotingFinished pollId else AlreadyVoted pollId (sender t))) \<and>
         voters (run env (txs @ [t])) pollId = voters (run env txs) pollId \<and>
         distinct (voters (run env txs) pollId)"
proof -
  let ?s = "contract (run env txs)"
  let ?p = "polls ?s pollId"
  note chron = chronological_snoc(1) [OF assms(1)] chronological_snoc(2) [OF assms(1), of env]
  have h: "historical (run env txs)" using chron(1) by (rule historical_run)
  have st: "structural ?s" by (rule structural_run)
  have voted: "pollVotes ?s pollId (sender t)"
    using h assms(3) by (auto simp: historical_def)
  have dist: "distinct (voters (run env txs) pollId)"
    using h by (simp add: historical_def)
  have ex: "pollId < pollCount ?s"
    using structural_fresh(2) [OF st, of pollId "sender t"] voted by blast
  then have opts: "options ?p \<noteq> []"
    using structural_exists [OF st, of pollId] by simp
  have "ucast (startTime ?p) \<le> clock (run env txs)"
    using h voted by (auto simp: historical_def)
  with chron(2) have started: "\<not> timestamp t < ucast (startTime ?p)" by simp
  have sv: "submitVote env (timestamp t) (sender t) pollId choice inputProof ?s
          = Inl (if ucast (endTime ?p) < timestamp t
                 then VotingFinished pollId else AlreadyVoted pollId (sender t))"
    using opts started voted by (simp add: submitVote_def ensurePollExists_def Let_def)
  then have b: "body env ?s t = Inl (if ucast (endTime ?p) < timestamp t
                 then VotingFinished pollId else AlreadyVoted pollId (sender t))"
    using assms(2) by (simp add: body_def)
  then have ex1: "exec env ?s t = (?s, Reverted (if ucast (endTime ?p) < timestamp t
                 then VotingFinished pollId else AlreadyVoted pollId (sender t)))"
    by (simp add: exec_def)
  have "ballots (run env (txs @ [t])) = ballots (run env txs)"
    using cast_reverted [OF b] by (simp add: run_snoc apply_tx_def)
  then have same: "voters (run env (txs @ [t])) pollId = voters (run env txs) pollId"
    by (simp add: voters_def)
  from ex1 same dist show ?thesis by blast
qed

theorem submitVote_once_witness:
  "chronological ([txCreate, txVote 200 alice 1] @ [txVote 300 alice 2]) \<and>
   sender (txVote 300 alice 2) \<in> set (voters (run honest [txCreate, txVote 200 alice 1]) 0) \<and>
   exec honest (contract (run honest [txCreate, txVote 200 alice 1])) (txVote 300 alice 2)
     = (contract (run honest [txCreate, txVote 200 alice 1]), Reverted (AlreadyVoted 0 alice)) \<and>
   voters (run honest ([txCreate, txVote 200 alice 1] @ [txVote 300 alice 2])) 0
     = voters (run honest [txCreate, txVote 200 alice 1]) 0"
proof -
  have a: "chronological ([txCreate, txVote 200 alice 1] @ [txVote 300 alice 2])" by code_simp
  have b: "call (txVote 300 alice 2) = SubmitVote 0 2 []" by (simp add: txVote_def)
  have c: "sender (txVote 300 alice 2) \<in> set (voters (run honest [txCreate, txVote 200 alice 1]) 0)"
    by code_simp
  have d: "\<not> ucast (endTime (polls (contract (run honest [txCreate, txVote 200 alice 1])) 0))
             < timestamp (txVote 300 alice 2)" by code_simp
  have e: "sender (txVote 300 alice 2) = alice" by (simp add: txVote_def)
  from submitVote_once [OF a b c] d e a c show ?thesis by simp
qed

text \<open>
  C1 as stated fails: after the deadline the second attempt of a voter is rejected with
  \<open>VotingFinished\<close>, not with \<open>AlreadyVoted\<close>.
\<close>

theorem second_vote_after_deadline_counterexample:
  "chronological [txCreate, txVote 200 alice 1, txVote 3701 alice 1] \<and>
   snd (exec honest deployed txCreate) = Succeeded \<and>
   snd (exec honest (contract (run honest [txCreate])) (txVote 200 alice 1)) = Succeeded \<and>
   snd (exec honest (contract (run honest [txCreate, txVote 200 alice 1])) (txVote 3701 alice 1))
     = Reverted (VotingFinished 0) \<and>
   snd (exec honest (contract (run honest [txCreate, txVote 200 alice 1])) (txVote 3701 alice 1))
     \<noteq> Reverted (AlreadyVoted 0 alice)"
  by code_simp

subsection \<open>C2\<close>

text \<open>
  C2. In a state that a history reaches, let the guards of \<open>submitDecryptedResults\<close> and
  the external proof check pass. The call fails with \<open>InvalidResultsLength\<close> exactly when
  the encoding is not 32 bytes for each option. Otherwise the encoding is read as one
  32-byte big-endian unsigned integer for each option, in option order (\<open>word32\<close>, the
  spec's reading, which the \<^verbatim>\<open>mload\<close> loop computes); if one of them exceeds
  \<open>2 ^ 32 - 1\<close> the call fails with \<open>CountExceedsLimit\<close> at such an index; if none does,
  the call succeeds, stores these integers as \<^verbatim>\<open>decryptedCounts\<close>, stores the encoding
  and the proof as they came, and sets \<^verbatim>\<open>resultsSubmitted\<close>.
\<close>

theorem submitDecryptedResults_decoding:
  assumes "pollId < pollCount (contract (run env txs))"
    and "finalized (polls (contract (run env txs)) pollId)"
    and "\<not> resultsSubmitted (polls (contract (run env txs)) pollId)"
    and "checkSignatures env (encryptedCounts (polls (contract (run env txs)) pollId)) encodedCounts proof"
  shows "(submitDecryptedResults env pollId encodedCounts proof (contract (run env txs))
            = Inl (InvalidResultsLength pollId) \<longleftrightarrow>
          length encodedCounts \<noteq> length (options (polls (contract (run env txs)) pollId)) * 32) \<and>
         (length encodedCounts = length (options (polls (contract (run env txs)) pollId)) * 32 \<and>
          (\<exists>i < length (options (polls (contract (run env txs)) pollId)).
              2 ^ 32 - 1 < word32 encodedCounts i) \<longrightarrow>
            (\<exists>i < length (options (polls (contract (run env txs)) pollId)).
               2 ^ 32 - 1 < word32 encodedCounts i \<and>
               submitDecryptedResults env pollId encodedCounts proof (contract (run env txs))
                 = Inl (CountExceedsLimit pollId (of_nat i)))) \<and>
         (length encodedCounts = length (options (polls (contract (run env txs)) pollId)) * 32 \<and>
          (\<forall>i < length (options (polls (contract (run env txs)) pollId)).
              word32 encodedCounts i \<le> 2 ^ 32 - 1) \<longrightarrow>
            (\<exists>s'. submitDecryptedResults env pollId encodedCounts proof (contract (run env txs)) = Inr s' \<and>
               map unat (decryptedCounts (polls s' pollId)) =
                 map (word32 encodedCounts) [0..<length (options (polls (contract (run env txs)) pollId))] \<and>
               encodedClearResults (polls s' pollId) = encodedCounts \<and>
               decryptionProof (polls s' pollId) = proof \<and>
               resultsSubmitted (polls s' pollId)))"
proof -
  let ?s = "contract (run env txs)"
  let ?p = "polls ?s pollId"
  let ?n = "length (options ?p)"
  let ?ds = "map (\<lambda>i. mload encodedCounts (i * 32)) [0..<?n]"
  have st: "structural ?s" by (rule structural_run)
  have opts: "options ?p \<noteq> []"
    using structural_exists [OF st, of pollId] assms(1) by simp
  have len: "length (encryptedCounts ?p) = ?n"
    using structural_wfPoll [OF st assms(1)] by (simp add: wfPoll_def)
  have handles: "map (\<lambda>i. encryptedCounts ?p ! i) [0..<?n] = encryptedCounts ?p"
    using len map_nth [of "encryptedCounts ?p"] by simp
  have sub: "submitDecryptedResults env pollId encodedCounts proof ?s =
      (if length encodedCounts \<noteq> ?n * 32 then Inl (InvalidResultsLength pollId)
       else case pushCounts pollId 0 ?ds [] of
              Inl e \<Rightarrow> Inl e
            | Inr counts \<Rightarrow>
                Inr (?s\<lparr>polls := (polls ?s)(pollId := ?p\<lparr>decryptedCounts := counts,
                          encodedClearResults := encodedCounts, decryptionProof := proof,
                          resultsSubmitted := True\<rparr>),
                       events := events ?s @ [ResultsPublished pollId counts]\<rparr>))"
    using opts assms(2,3,4)
    by (simp add: submitDecryptedResults_def ensurePollExists_def decodeClearValues_def Let_def
        len handles)
  have a: "submitDecryptedResults env pollId encodedCounts proof ?s = Inl (InvalidResultsLength pollId)
      \<longleftrightarrow> length encodedCounts \<noteq> ?n * 32"
    by (auto simp: sub pushCounts_Inl split: sum.splits)
  have dec: "unat (?ds ! i) = word32 encodedCounts i" if "length encodedCounts = ?n * 32" "i < ?n" for i
  proof -
    have "i * 32 + 32 \<le> length encodedCounts" using that by simp
    from mload_word32 [OF this] that(2) show ?thesis by simp
  qed
  have b: "\<exists>i < ?n. 2 ^ 32 - 1 < word32 encodedCounts i \<and>
             submitDecryptedResults env pollId encodedCounts proof ?s
               = Inl (CountExceedsLimit pollId (of_nat i))"
    if l: "length encodedCounts = ?n * 32" and ex: "\<exists>i < ?n. 2 ^ 32 - 1 < word32 encodedCounts i"
  proof -
    from ex obtain i where i: "i < ?n" "2 ^ 32 - 1 < word32 encodedCounts i" by blast
    then have "0xFFFFFFFF < ?ds ! i" using dec [OF l i(1)] by (simp only: exceeds_iff)
    moreover have "?ds ! i \<in> set ?ds"
      by (rule nth_mem) (simp add: i(1))
    ultimately have "\<not> (\<forall>d \<in> set ?ds. d \<le> 0xFFFFFFFF)"
      using not_less by blast
    then have "\<forall>counts. pushCounts pollId 0 ?ds [] \<noteq> Inr counts"
      by (simp only: pushCounts_Inr) blast
    then obtain e where e: "pushCounts pollId 0 ?ds [] = Inl e"
      by (cases "pushCounts pollId 0 ?ds []") auto
    then obtain k where k: "k < length ?ds" "0xFFFFFFFF < ?ds ! k"
      "e = CountExceedsLimit pollId (of_nat (0 + k))"
      unfolding pushCounts_Inl by blast
    have kn: "k < ?n" using k(1) by simp
    have "2 ^ 32 - 1 < word32 encodedCounts k"
      using k(2) dec [OF l kn] by (simp only: exceeds_iff)
    moreover have "submitDecryptedResults env pollId encodedCounts proof ?s
        = Inl (CountExceedsLimit pollId (of_nat k))"
      using l e k(3) by (simp add: sub)
    ultimately show ?thesis using kn by blast
  qed
  have c: "\<exists>s'. submitDecryptedResults env pollId encodedCounts proof ?s = Inr s' \<and>
               map unat (decryptedCounts (polls s' pollId)) = map (word32 encodedCounts) [0..<?n] \<and>
               encodedClearResults (polls s' pollId) = encodedCounts \<and>
               decryptionProof (polls s' pollId) = proof \<and>
               resultsSubmitted (polls s' pollId)"
    if l: "length encodedCounts = ?n * 32" and all: "\<forall>i < ?n. word32 encodedCounts i \<le> 2 ^ 32 - 1"
  proof -
    have small: "?ds ! i \<le> 0xFFFFFFFF" if "i < ?n" for i
    proof -
      have "\<not> 2 ^ 32 - 1 < unat (?ds ! i)" using all that dec [OF l that] by auto
      then show ?thesis by (simp only: exceeds_iff [symmetric] not_less)
    qed
    then have "\<forall>d \<in> set ?ds. d \<le> 0xFFFFFFFF"
      by (auto simp: in_set_conv_nth)
    then have pc: "pushCounts pollId 0 ?ds [] = Inr (map ucast ?ds)"
      by (simp only: pushCounts_Inr) simp
    have "map unat (map ucast ?ds :: uint32 list) = map (word32 encodedCounts) [0..<?n]"
    proof (rule nth_equalityI)
      show "length (map unat (map ucast ?ds :: uint32 list)) = length (map (word32 encodedCounts) [0..<?n])"
        by simp
    next
      fix i assume "i < length (map unat (map ucast ?ds :: uint32 list))"
      then have i: "i < ?n" by simp
      have "unat (ucast (?ds ! i) :: uint32) = unat (?ds ! i)"
        using small [OF i] by (rule unat_ucast_small)
      with dec [OF l i] i
      show "map unat (map ucast ?ds :: uint32 list) ! i = map (word32 encodedCounts) [0..<?n] ! i"
        by simp
    qed
    then show ?thesis
      using l pc by (simp add: sub)
  qed
  from a b c show ?thesis by blast
qed

theorem submitDecryptedResults_decoding_witness:
  "(\<exists>s'. submitDecryptedResults honest 0 (encodeCounts [0, 1, 1]) []
            (contract (run honest [txCreate, txVote 200 alice 1, txVote 300 bob 2, txFinalize 3701]))
            = Inr s' \<and>
         map unat (decryptedCounts (polls s' 0)) = [0, 1, 1] \<and>
         encodedClearResults (polls s' 0) = encodeCounts [0, 1, 1] \<and>
         decryptionProof (polls s' 0) = [] \<and> resultsSubmitted (polls s' 0)) \<and>
   submitDecryptedResults credulous 0 [] []
        (contract (run credulous [txCreate, txVote 200 alice 1, txFinalize 3701]))
     = Inl (InvalidResultsLength 0) \<and>
   (\<exists>i < 3. 2 ^ 32 - 1 < word32 (replicate 27 0 @ [1, 0, 0, 0, 0] @ encodeCounts [1, 0]) i \<and>
      submitDecryptedResults credulous 0 (replicate 27 0 @ [1, 0, 0, 0, 0] @ encodeCounts [1, 0]) []
        (contract (run credulous [txCreate, txVote 200 alice 1, txFinalize 3701]))
      = Inl (CountExceedsLimit 0 (of_nat i)))"
proof -
  have accepted: "(\<exists>s'. submitDecryptedResults honest 0 (encodeCounts [0, 1, 1]) []
            (contract (run honest [txCreate, txVote 200 alice 1, txVote 300 bob 2, txFinalize 3701]))
            = Inr s' \<and>
         map unat (decryptedCounts (polls s' 0)) = [0, 1, 1] \<and>
         encodedClearResults (polls s' 0) = encodeCounts [0, 1, 1] \<and>
         decryptionProof (polls s' 0) = [] \<and> resultsSubmitted (polls s' 0))"
  proof -
    let ?txs = "[txCreate, txVote 200 alice 1, txVote 300 bob 2, txFinalize 3701]"
    let ?s = "contract (run honest ?txs)"
    let ?enc = "encodeCounts [0, 1, 1]"
    have h: "0 < pollCount ?s" "finalized (polls ?s 0)" "\<not> resultsSubmitted (polls ?s 0)"
      "checkSignatures honest (encryptedCounts (polls ?s 0)) ?enc []"
      by code_simp+
    have n: "length (options (polls ?s 0)) = 3" by code_simp
    have l: "length ?enc = 3 * 32" by code_simp
    have mw: "mload ?enc (0 * 32) = 0" "mload ?enc (1 * 32) = 1" "mload ?enc (2 * 32) = 1"
      by code_simp+
    have w: "word32 ?enc 0 = 0" "word32 ?enc 1 = 1" "word32 ?enc 2 = 1"
      using mload_word32 [of 0 ?enc] mload_word32 [of 1 ?enc] mload_word32 [of 2 ?enc]
      by (simp_all only: l mw) simp_all
    have small: "\<forall>i < 3. word32 ?enc i \<le> 2 ^ 32 - 1"
    proof (intro allI impI)
      fix i :: nat assume "i < 3"
      then consider "i = 0" | "i = 1" | "i = 2" by linarith
      then show "word32 ?enc i \<le> 2 ^ 32 - 1"
        using w by cases simp_all
    qed
    have u: "[0..<3] = [0, 1, 2 :: nat]" by code_simp
    have m: "map (word32 ?enc) [0..<3] = [0, 1, 1]"
      by (simp only: u list.map w)
    from submitDecryptedResults_decoding [OF h] l small
    have "\<exists>s'. submitDecryptedResults honest 0 ?enc [] ?s = Inr s' \<and>
           map unat (decryptedCounts (polls s' 0)) = map (word32 ?enc) [0..<3] \<and>
           encodedClearResults (polls s' 0) = ?enc \<and>
           decryptionProof (polls s' 0) = [] \<and> resultsSubmitted (polls s' 0)"
      unfolding n by blast
    then show ?thesis unfolding m .
  qed
  have rejected: "submitDecryptedResults credulous 0 [] []
        (contract (run credulous [txCreate, txVote 200 alice 1, txFinalize 3701]))
     = Inl (InvalidResultsLength 0) \<and>
   (\<exists>i < 3. 2 ^ 32 - 1 < word32 (replicate 27 0 @ [1, 0, 0, 0, 0] @ encodeCounts [1, 0]) i \<and>
      submitDecryptedResults credulous 0 (replicate 27 0 @ [1, 0, 0, 0, 0] @ encodeCounts [1, 0]) []
        (contract (run credulous [txCreate, txVote 200 alice 1, txFinalize 3701]))
      = Inl (CountExceedsLimit 0 (of_nat i)))"
  proof -
    let ?txs = "[txCreate, txVote 200 alice 1, txFinalize 3701]"
    let ?s = "contract (run credulous ?txs)"
    let ?big = "replicate 27 0 @ [1, 0, 0, 0, 0] @ encodeCounts [1, 0]"
    have g: "0 < pollCount ?s" "finalized (polls ?s 0)" "\<not> resultsSubmitted (polls ?s 0)"
      by code_simp+
    have ck: "checkSignatures credulous (encryptedCounts (polls ?s 0)) enc []" for enc
      by (simp add: credulous_def)
    have n: "length (options (polls ?s 0)) = 3" by code_simp
    have l0: "length ([] :: bytes) \<noteq> 3 * 32" by simp
    have lb: "length ?big = 3 * 32" by code_simp
    have "mload ?big (0 * 32) = 4294967296" by code_simp
    with mload_word32 [of 0 ?big] have "word32 ?big 0 = 4294967296"
      by (simp only: lb) simp
    then have ex: "\<exists>i < 3. 2 ^ 32 - 1 < word32 ?big i"
      by (intro exI [of _ 0]) simp
    from submitDecryptedResults_decoding [OF g ck [of "[]"]] l0
    have 1: "submitDecryptedResults credulous 0 [] [] ?s = Inl (InvalidResultsLength 0)"
      unfolding n by blast
    from submitDecryptedResults_decoding [OF g ck [of ?big]] lb ex
    have 2: "\<exists>i < 3. 2 ^ 32 - 1 < word32 ?big i \<and>
        submitDecryptedResults credulous 0 ?big [] ?s = Inl (CountExceedsLimit 0 (of_nat i))"
      unfolding n by blast
    from 1 2 show ?thesis by blast
  qed
  from accepted rejected show ?thesis by blast
qed

subsection \<open>C3\<close>

text \<open>
  C3, amended. Let the decryption check be sound, time never decrease, and fewer than
  \<open>2 ^ 32\<close> votes be accepted on a poll. Once results are published for the poll, the sum
  of \<^verbatim>\<open>decryptedCounts\<close> is the number of accepted votes whose encrypted choice is an
  option index. A vote whose choice is no option index is accepted and recorded but
  increments no counter, so the sum is at most the number of voters, who are pairwise
  distinct and are the accounts for which \<open>hasVoted\<close> answers true.
\<close>

theorem decrypted_sum_counts_valid_votes:
  assumes "sound env" and "chronological txs"
    and "resultsSubmitted (polls (contract (run env txs)) pollId)"
    and "length (voters (run env txs) pollId) < 2 ^ 32"
  shows "sum_list (map unat (decryptedCounts (polls (contract (run env txs)) pollId)))
           = length (validBallots (run env txs) pollId) \<and>
         length (validBallots (run env txs) pollId) \<le> length (voters (run env txs) pollId) \<and>
         distinct (voters (run env txs) pollId) \<and>
         set (voters (run env txs) pollId) = {v. hasVoted (contract (run env txs)) pollId v}"
proof -
  let ?w = "run env txs"
  have st: "structural (contract ?w)" by (rule structural_run)
  have h: "historical ?w" using assms(2) by (rule historical_run)
  have "published ?w" using assms(1,2) by (rule published_run)
  then have eq: "decryptedCounts (polls (contract ?w) pollId)
      = map plaintext (encryptedCounts (polls (contract ?w) pollId))"
    using assms(3) by (simp add: published_def)
  have le: "length (validBallots ?w pollId) \<le> length (voters ?w pollId)"
    by (rule validBallots_le)
  with assms(4) have "length (validBallots ?w pollId) < 2 ^ 32" by simp
  from tally_sum [OF st h this] eq
  have "sum_list (map unat (decryptedCounts (polls (contract ?w) pollId)))
           = length (validBallots ?w pollId)" by simp
  moreover have "distinct (voters ?w pollId)"
    and "set (voters ?w pollId) = {v. hasVoted (contract ?w) pollId v}"
    using h by (simp_all add: historical_def hasVoted_def)
  ultimately show ?thesis using le by blast
qed

theorem decrypted_sum_counts_valid_votes_witness:
  "sum_list (map unat (decryptedCounts (polls (contract (run honest
      [txCreate, txVote 200 alice 1, txVote 300 bob 7, txFinalize 3701, txPublish (encodeCounts [0, 1, 0])]))
      0)))
     = length (validBallots (run honest
      [txCreate, txVote 200 alice 1, txVote 300 bob 7, txFinalize 3701, txPublish (encodeCounts [0, 1, 0])]) 0) \<and>
   length (validBallots (run honest
      [txCreate, txVote 200 alice 1, txVote 300 bob 7, txFinalize 3701, txPublish (encodeCounts [0, 1, 0])]) 0)
     = 1"
proof -
  let ?txs = "[txCreate, txVote 200 alice 1, txVote 300 bob 7, txFinalize 3701,
               txPublish (encodeCounts [0, 1, 0])]"
  have a: "chronological ?txs" by code_simp
  have b: "resultsSubmitted (polls (contract (run honest ?txs)) 0)" by code_simp
  have "length (voters (run honest ?txs) 0) = 2" by code_simp
  then have c: "length (voters (run honest ?txs) 0) < 2 ^ 32" by simp
  have d: "length (validBallots (run honest ?txs) 0) = 1" by code_simp
  from decrypted_sum_counts_valid_votes [OF sound_honest a b c] d show ?thesis by blast
qed

text \<open>
  C3 as stated fails: after a vote for option 1 and a vote whose choice is 7, finalization
  and publication of the correct decryption, the counts sum to one while two voters voted.
\<close>

theorem stray_vote_counterexample:
  "chronological
     [txCreate, txVote 200 alice 1, txVote 300 bob 7, txFinalize 3701, txPublish (encodeCounts [0, 1, 0])] \<and>
   finalized (polls (contract (run honest
     [txCreate, txVote 200 alice 1, txVote 300 bob 7, txFinalize 3701, txPublish (encodeCounts [0, 1, 0])])) 0) \<and>
   resultsSubmitted (polls (contract (run honest
     [txCreate, txVote 200 alice 1, txVote 300 bob 7, txFinalize 3701, txPublish (encodeCounts [0, 1, 0])])) 0) \<and>
   decryptedCounts (polls (contract (run honest
     [txCreate, txVote 200 alice 1, txVote 300 bob 7, txFinalize 3701, txPublish (encodeCounts [0, 1, 0])])) 0)
     = map plaintext (encryptedCounts (polls (contract (run honest
     [txCreate, txVote 200 alice 1, txVote 300 bob 7, txFinalize 3701, txPublish (encodeCounts [0, 1, 0])])) 0)) \<and>
   voters (run honest
     [txCreate, txVote 200 alice 1, txVote 300 bob 7, txFinalize 3701, txPublish (encodeCounts [0, 1, 0])]) 0
     = [alice, bob] \<and>
   alice \<noteq> bob \<and>
   getDecryptedResults (contract (run honest
     [txCreate, txVote 200 alice 1, txVote 300 bob 7, txFinalize 3701, txPublish (encodeCounts [0, 1, 0])])) 0
     = Inr [0, 1, 0] \<and>
   sum_list (map unat (decryptedCounts (polls (contract (run honest
     [txCreate, txVote 200 alice 1, txVote 300 bob 7, txFinalize 3701, txPublish (encodeCounts [0, 1, 0])])) 0)))
     = 1 \<and>
   sum_list (map unat (decryptedCounts (polls (contract (run honest
     [txCreate, txVote 200 alice 1, txVote 300 bob 7, txFinalize 3701, txPublish (encodeCounts [0, 1, 0])])) 0)))
     \<noteq> length (voters (run honest
     [txCreate, txVote 200 alice 1, txVote 300 bob 7, txFinalize 3701, txPublish (encodeCounts [0, 1, 0])]) 0)"
  by code_simp

subsection \<open>C4\<close>

text \<open>
  C4. The claim asks that on every created poll the first \<open>finalizePoll\<close> after the
  deadline succeeds. It does not on a poll nobody voted on: its counters are still the
  uninitialised handles that \<^verbatim>\<open>createPoll\<close> pushed, and under a service that refuses
  public decryption for the uninitialised handle, as the sample service \<open>honest\<close> does, the
  library reverts inside the loop of \<open>finalizePoll\<close> and the poll stays unfinalized, at a
  later attempt too. With a vote accepted before the deadline the same call succeeds. The
  rest of the claim holds on every history (\<open>finalizePoll_outcomes\<close>).
\<close>

theorem finalizePoll_unvoted_poll_reverts:
  "chronological [txCreate, txFinalize 3701, txFinalize 3800] \<and>
   snd (exec honest deployed txCreate) = Succeeded \<and>
   voters (run honest [txCreate]) 0 = [] \<and>
   encryptedCounts (polls (contract (run honest [txCreate])) 0)
     = [Uninitialized, Uninitialized, Uninitialized] \<and>
   ucast (endTime (polls (contract (run honest [txCreate])) 0)) < timestamp (txFinalize 3701) \<and>
   \<not> finalized (polls (contract (run honest [txCreate])) 0) \<and>
   snd (exec honest (contract (run honest [txCreate])) (txFinalize 3701)) = Reverted LibraryRevert \<and>
   snd (exec honest (contract (run honest [txCreate, txFinalize 3701])) (txFinalize 3800))
     = Reverted LibraryRevert \<and>
   \<not> finalized (polls (contract (run honest [txCreate, txFinalize 3701, txFinalize 3800])) 0) \<and>
   finalizations (contract (run honest [txCreate, txFinalize 3701, txFinalize 3800])) 0 = 0 \<and>
   snd (exec honest (contract (run honest [txCreate, txVote 200 alice 1])) (txFinalize 3701))
     = Succeeded"
  by code_simp

subsection \<open>C5\<close>

text \<open>
  C5. \<open>submitVote\<close> checks, in this order, that the poll exists, that voting has started,
  that it has not finished and that the voter has not voted; the first check that fails
  decides the error, and a failing call leaves the storage as it was.
\<close>

theorem submitVote_precondition_order:
  "(options (polls s pollId) = [] \<longrightarrow>
      submitVote env now voter pollId choice inputProof s = Inl (PollNotFound pollId)) \<and>
   (options (polls s pollId) \<noteq> [] \<and> now < ucast (startTime (polls s pollId)) \<longrightarrow>
      submitVote env now voter pollId choice inputProof s = Inl (VotingNotStarted pollId)) \<and>
   (options (polls s pollId) \<noteq> [] \<and> ucast (startTime (polls s pollId)) \<le> now \<and>
    ucast (endTime (polls s pollId)) < now \<longrightarrow>
      submitVote env now voter pollId choice inputProof s = Inl (VotingFinished pollId)) \<and>
   (options (polls s pollId) \<noteq> [] \<and> ucast (startTime (polls s pollId)) \<le> now \<and>
    now \<le> ucast (endTime (polls s pollId)) \<and> pollVotes s pollId voter \<longrightarrow>
      submitVote env now voter pollId choice inputProof s = Inl (AlreadyVoted pollId voter)) \<and>
   (\<forall>e. submitVote env now voter pollId choice inputProof s = Inl e \<longrightarrow>
      exec env s \<lparr>timestamp = now, sender = voter, call = SubmitVote pollId choice inputProof\<rparr>
        = (s, Reverted e))"
  by (auto simp: submitVote_def ensurePollExists_def Let_def exec_def body_def)

theorem submitVote_precondition_order_witness:
  "submitVote honest 200 alice 3 1 [] (contract (run honest [txCreate])) = Inl (PollNotFound 3) \<and>
   submitVote honest 50 alice 0 1 [] (contract (run honest [txCreate])) = Inl (VotingNotStarted 0) \<and>
   submitVote honest 3701 alice 0 1 [] (contract (run honest [txCreate, txVote 200 alice 1]))
     = Inl (VotingFinished 0) \<and>
   submitVote honest 300 alice 0 1 [] (contract (run honest [txCreate, txVote 200 alice 1]))
     = Inl (AlreadyVoted 0 alice) \<and>
   exec honest (contract (run honest [txCreate, txVote 200 alice 1]))
     \<lparr>timestamp = 300, sender = alice, call = SubmitVote 0 1 []\<rparr>
     = (contract (run honest [txCreate, txVote 200 alice 1]), Reverted (AlreadyVoted 0 alice))"
proof -
  let ?s1 = "contract (run honest [txCreate])"
  let ?s2 = "contract (run honest [txCreate, txVote 200 alice 1])"
  have a: "options (polls ?s1 3) = []" by code_simp
  have b: "options (polls ?s1 0) \<noteq> [] \<and> (50 :: uint256) < ucast (startTime (polls ?s1 0))" by code_simp
  have c: "options (polls ?s2 0) \<noteq> [] \<and> ucast (startTime (polls ?s2 0)) \<le> (3701 :: uint256) \<and>
      ucast (endTime (polls ?s2 0)) < (3701 :: uint256)" by code_simp
  have d: "options (polls ?s2 0) \<noteq> [] \<and> ucast (startTime (polls ?s2 0)) \<le> (300 :: uint256) \<and>
      (300 :: uint256) \<le> ucast (endTime (polls ?s2 0)) \<and> pollVotes ?s2 0 alice" by code_simp
  from submitVote_precondition_order [where s="?s1" and pollId=3 and env=honest and now=200 and voter=alice and choice=1 and inputProof="[]"] a
  have 1: "submitVote honest 200 alice 3 1 [] ?s1 = Inl (PollNotFound 3)" by blast
  from submitVote_precondition_order [where s="?s1" and pollId=0 and env=honest and now=50 and voter=alice and choice=1 and inputProof="[]"] b
  have 2: "submitVote honest 50 alice 0 1 [] ?s1 = Inl (VotingNotStarted 0)" by blast
  from submitVote_precondition_order [where s="?s2" and pollId=0 and env=honest and now=3701 and voter=alice and choice=1 and inputProof="[]"] c
  have 3: "submitVote honest 3701 alice 0 1 [] ?s2 = Inl (VotingFinished 0)" by blast
  from submitVote_precondition_order [where s="?s2" and pollId=0 and env=honest and now=300 and voter=alice and choice=1 and inputProof="[]"] d
  have 4: "submitVote honest 300 alice 0 1 [] ?s2 = Inl (AlreadyVoted 0 alice)"
    and 5: "\<forall>e. submitVote honest 300 alice 0 1 [] ?s2 = Inl e \<longrightarrow>
      exec honest ?s2 \<lparr>timestamp = 300, sender = alice, call = SubmitVote 0 1 []\<rparr> = (?s2, Reverted e)"
    by blast+
  from 1 2 3 4 5 show ?thesis by blast
qed

subsection \<open>C6\<close>

text \<open>
  C6, amended. \<open>createPoll\<close> applies its checks in the order \<open>EmptyTitle\<close>,
  \<open>InvalidOptionCount\<close>, \<open>InvalidSchedule\<close> and only then \<open>EmptyOption\<close>, which the loop
  that stores the options raises after \<^verbatim>\<open>pollCount\<close> and the poll's metadata have been
  written; every failure reverts, so no write of a failed call survives.
\<close>

theorem createPoll_validation_order:
  "(ttl = [] \<longrightarrow>
      createPoll now creator' ttl descr opts start en s = Inl EmptyTitle) \<and>
   (ttl \<noteq> [] \<and> (length opts < 2 \<or> 4 < length opts) \<longrightarrow>
      createPoll now creator' ttl descr opts start en s = Inl InvalidOptionCount) \<and>
   (ttl \<noteq> [] \<and> 2 \<le> length opts \<and> length opts \<le> 4 \<and> (en \<le> start \<or> ucast en \<le> now) \<longrightarrow>
      createPoll now creator' ttl descr opts start en s = Inl InvalidSchedule) \<and>
   (ttl \<noteq> [] \<and> 2 \<le> length opts \<and> length opts \<le> 4 \<and> start < en \<and> now < ucast en \<and>
    pollCount s + 1 \<noteq> 0 \<and> [] \<in> set opts \<longrightarrow>
      createPoll now creator' ttl descr opts start en s = Inl EmptyOption) \<and>
   (\<forall>e. createPoll now creator' ttl descr opts start en s = Inl e \<longrightarrow>
      exec env s \<lparr>timestamp = now, sender = creator', call = CreatePoll ttl descr opts start en\<rparr>
        = (s, Reverted e))"
proof -
  have "[] \<in> set opts \<Longrightarrow> pushOptions opts p = Inl EmptyOption" for p
    by (simp add: pushOptions_Inl)
  then show ?thesis
    by (auto simp: createPoll_def MIN_OPTIONS_def MAX_OPTIONS_def Let_def exec_def body_def not_le not_less)
qed

theorem createPoll_validation_order_witness:
  "createPoll 100 alice [] [] [''Yes'', ''No''] 100 200 deployed = Inl EmptyTitle \<and>
   createPoll 100 alice ''Bad Poll'' ''No options'' [''OnlyOne''] 100 700 deployed = Inl InvalidOptionCount \<and>
   createPoll 100 alice ''Late'' [] [''Yes'', ''No''] 200 100 deployed = Inl InvalidSchedule \<and>
   createPoll 100 alice ''Blank'' [] [''Yes'', []] 100 200 deployed = Inl EmptyOption \<and>
   exec honest deployed \<lparr>timestamp = 100, sender = alice, call = CreatePoll ''Blank'' [] [''Yes'', []] 100 200\<rparr>
     = (deployed, Reverted EmptyOption)"
proof -
  have a: "([] :: string) = []" by simp
  have b: "''Bad Poll'' \<noteq> [] \<and> (length [''OnlyOne''] < 2 \<or> 4 < length [''OnlyOne''])" by simp
  have c: "''Late'' \<noteq> [] \<and> 2 \<le> length [''Yes'', ''No''] \<and> length [''Yes'', ''No''] \<le> 4 \<and>
      ((100 :: uint64) \<le> 200 \<or> ucast (100 :: uint64) \<le> (100 :: uint256))" by simp
  have d: "''Blank'' \<noteq> [] \<and> 2 \<le> length [''Yes'', []] \<and> length [''Yes'', []] \<le> 4 \<and>
      (100 :: uint64) < 200 \<and> (100 :: uint256) < ucast (200 :: uint64) \<and>
      pollCount deployed + 1 \<noteq> 0 \<and> [] \<in> set [''Yes'', []]" by (simp add: deployed_def)
  from createPoll_validation_order [where ttl="[]" and now=100 and creator'=alice and descr="[]"
      and opts="[''Yes'', ''No'']" and start=100 and en=200 and s=deployed and env=honest] a
  have 1: "createPoll 100 alice [] [] [''Yes'', ''No''] 100 200 deployed = Inl EmptyTitle" by blast
  from createPoll_validation_order [where ttl="''Bad Poll''" and now=100 and creator'=alice
      and descr="''No options''" and opts="[''OnlyOne'']" and start=100 and en=700 and s=deployed
      and env=honest] b
  have 2: "createPoll 100 alice ''Bad Poll'' ''No options'' [''OnlyOne''] 100 700 deployed
      = Inl InvalidOptionCount" by blast
  from createPoll_validation_order [where ttl="''Late''" and now=100 and creator'=alice and descr="[]"
      and opts="[''Yes'', ''No'']" and start=200 and en=100 and s=deployed and env=honest] c
  have 3: "createPoll 100 alice ''Late'' [] [''Yes'', ''No''] 200 100 deployed = Inl InvalidSchedule"
    by blast
  from createPoll_validation_order [where ttl="''Blank''" and now=100 and creator'=alice and descr="[]"
      and opts="[''Yes'', []]" and start=100 and en=200 and s=deployed and env=honest] d
  have 4: "createPoll 100 alice ''Blank'' [] [''Yes'', []] 100 200 deployed = Inl EmptyOption"
    and 5: "\<forall>e. createPoll 100 alice ''Blank'' [] [''Yes'', []] 100 200 deployed = Inl e \<longrightarrow>
      exec honest deployed
        \<lparr>timestamp = 100, sender = alice, call = CreatePoll ''Blank'' [] [''Yes'', []] 100 200\<rparr>
        = (deployed, Reverted e)"
    by blast+
  from 1 2 3 4 5 show ?thesis by blast
qed

text \<open>
  C6 as stated fails: an input with both an empty option and an invalid schedule is
  rejected with \<open>InvalidSchedule\<close>, not with \<open>EmptyOption\<close>.
\<close>

theorem createPoll_order_counterexample:
  "createPoll 100 alice ''Blank'' [] [''Yes'', []] 200 100 deployed = Inl InvalidSchedule \<and>
   createPoll 100 alice ''Blank'' [] [''Yes'', []] 200 100 deployed \<noteq> Inl EmptyOption"
  by (simp add: createPoll_def MIN_OPTIONS_def MAX_OPTIONS_def)

subsection \<open>C7\<close>

text \<open>
  C7. Voting and finalization never overlap. When time never decreases along the history,
  a \<open>submitVote\<close> for a poll whose \<open>finalized\<close> flag is set fails with \<open>VotingFinished\<close> and
  changes nothing: the flag is only set after the deadline, and a vote needs a time at or
  before it.
\<close>

theorem no_vote_after_finalize:
  assumes "chronological (txs @ [t])"
    and "call t = SubmitVote pollId choice inputProof"
    and "finalized (polls (contract (run env txs)) pollId)"
  shows "exec env (contract (run env txs)) t
           = (contract (run env txs), Reverted (VotingFinished pollId))"
proof -
  let ?s = "contract (run env txs)"
  let ?p = "polls ?s pollId"
  note chron = chronological_snoc(1) [OF assms(1)] chronological_snoc(2) [OF assms(1), of env]
  have h: "historical (run env txs)" using chron(1) by (rule historical_run)
  have st: "structural ?s" by (rule structural_run)
  have late: "ucast (endTime ?p) < timestamp t"
    using h assms(3) chron(2) by (auto simp: historical_def)
  have ex: "pollId < pollCount ?s"
  proof (rule ccontr)
    assume "\<not> pollId < pollCount ?s"
    from structural_fresh(1) [OF st this] assms(3) show False by (simp add: zeroPoll_def)
  qed
  then have "startTime ?p < endTime ?p" and opts: "options ?p \<noteq> []"
    using structural_wfPoll [OF st ex] structural_exists [OF st, of pollId]
    by (simp_all add: wfPoll_def)
  then have "(ucast (startTime ?p) :: uint256) < ucast (endTime ?p)"
    by (simp add: ucast_64_256_less)
  with late have started: "\<not> timestamp t < ucast (startTime ?p)" by simp
  have "submitVote env (timestamp t) (sender t) pollId choice inputProof ?s
          = Inl (VotingFinished pollId)"
    using opts started late by (simp add: submitVote_def ensurePollExists_def Let_def)
  then show ?thesis
    using assms(2) by (simp add: exec_def body_def)
qed

theorem no_vote_after_finalize_witness:
  "chronological ([txCreate, txVote 200 alice 1, txFinalize 3701] @ [txVote 3701 bob 1]) \<and>
   finalized (polls (contract (run honest [txCreate, txVote 200 alice 1, txFinalize 3701])) 0) \<and>
   exec honest (contract (run honest [txCreate, txVote 200 alice 1, txFinalize 3701]))
       (txVote 3701 bob 1)
     = (contract (run honest [txCreate, txVote 200 alice 1, txFinalize 3701]),
        Reverted (VotingFinished 0))"
proof -
  have a: "chronological ([txCreate, txVote 200 alice 1, txFinalize 3701] @ [txVote 3701 bob 1])"
    by code_simp
  have b: "call (txVote 3701 bob 1) = SubmitVote 0 1 []" by (simp add: txVote_def)
  have c: "finalized (polls (contract (run honest [txCreate, txVote 200 alice 1, txFinalize 3701])) 0)"
    by code_simp
  from no_vote_after_finalize [OF a b c] a c show ?thesis by blast
qed

subsection \<open>C8\<close>

text \<open>
  C8. In every state that a history reaches, every created poll (an id below
  \<^verbatim>\<open>pollCount\<close>) has between two and four options and one encrypted counter for each;
  \<open>getPoll\<close> fails with \<open>PollNotFound\<close> exactly for the ids that were never created, which
  are the ids that no \<^verbatim>\<open>PollCreated\<close> event announced, and it fails in no other way.
\<close>

theorem created_polls_wellformed:
  "(pollId < pollCount (contract (run env txs)) \<longrightarrow>
      2 \<le> length (options (polls (contract (run env txs)) pollId)) \<and>
      length (options (polls (contract (run env txs)) pollId)) \<le> 4 \<and>
      length (encryptedCounts (polls (contract (run env txs)) pollId)) =
        length (options (polls (contract (run env txs)) pollId))) \<and>
   (getPoll (contract (run env txs)) pollId = Inl (PollNotFound pollId) \<longleftrightarrow>
      \<not> pollId < pollCount (contract (run env txs))) \<and>
   ((\<exists>e. getPoll (contract (run env txs)) pollId = Inl e) \<longleftrightarrow>
      \<not> (\<exists>c t. PollCreated pollId c t \<in> set (events (contract (run env txs)))))"
proof -
  let ?s = "contract (run env txs)"
  have st: "structural ?s" and an: "announced ?s"
    by (rule structural_run, rule announced_run)
  have "pollId < pollCount ?s \<longrightarrow>
            2 \<le> length (options (polls ?s pollId)) \<and> length (options (polls ?s pollId)) \<le> 4 \<and>
            length (encryptedCounts (polls ?s pollId)) = length (options (polls ?s pollId))"
    using structural_wfPoll [OF st, of pollId]
    by (auto simp: wfPoll_def MIN_OPTIONS_def MAX_OPTIONS_def)
  moreover have "getPoll ?s pollId = Inl (PollNotFound pollId) \<longleftrightarrow> \<not> pollId < pollCount ?s"
    using structural_exists [OF st, of pollId]
    by (auto simp: getPoll_def ensurePollExists_def Let_def)
  moreover have "(\<exists>e. getPoll ?s pollId = Inl e) \<longleftrightarrow>
      \<not> (\<exists>c t. PollCreated pollId c t \<in> set (events ?s))"
    using structural_exists [OF st, of pollId] an
    by (auto simp: getPoll_def ensurePollExists_def Let_def announced_def)
  ultimately show ?thesis by blast
qed

theorem created_polls_wellformed_witness:
  "0 < pollCount (contract (run honest [txCreate])) \<and>
   2 \<le> length (options (polls (contract (run honest [txCreate])) 0)) \<and>
   length (options (polls (contract (run honest [txCreate])) 0)) \<le> 4 \<and>
   length (encryptedCounts (polls (contract (run honest [txCreate])) 0)) =
     length (options (polls (contract (run honest [txCreate])) 0)) \<and>
   \<not> 5 < pollCount (contract (run honest [txCreate])) \<and>
   getPoll (contract (run honest [txCreate])) 5 = Inl (PollNotFound 5)"
proof -
  have h0: "0 < pollCount (contract (run honest [txCreate]))"
    and h5: "\<not> 5 < pollCount (contract (run honest [txCreate]))"
    by code_simp+
  from created_polls_wellformed [where pollId=0 and env=honest and txs="[txCreate]"]
    created_polls_wellformed [where pollId=5 and env=honest and txs="[txCreate]"] h0 h5
  show ?thesis by blast
qed

subsection \<open>C9\<close>

text \<open>
  C9. \<open>createPoll\<close> does not ask for a start in the future. In a state that a history
  reaches and whose poll counter is not at its largest value (where the checked increment
  panics), every call with a non-empty title, two to four non-empty options, an end after
  the start and after the current time succeeds, whatever the start; when the start is not
  after the current time the new poll is open at once: a vote at the same time by any voter
  whose input proof the encryption service accepts succeeds.
\<close>

theorem createPoll_past_start:
  assumes "ttl \<noteq> []" and "2 \<le> length opts" and "length opts \<le> 4" and "[] \<notin> set opts"
    and "start < en" and "now < ucast en"
    and "pollCount (contract (run env txs)) + 1 \<noteq> 0"
  shows "\<exists>s'. createPoll now creator' ttl descr opts start en (contract (run env txs))
            = Inr (s', pollCount (contract (run env txs))) \<and>
          options (polls s' (pollCount (contract (run env txs)))) = opts \<and>
          startTime (polls s' (pollCount (contract (run env txs)))) = start \<and>
          endTime (polls s' (pollCount (contract (run env txs)))) = en \<and>
          (ucast start \<le> now \<longrightarrow>
             (\<forall>voter choice inputProof. fromExternal env voter choice inputProof \<noteq> None \<longrightarrow>
                (\<exists>s''. submitVote env now voter (pollCount (contract (run env txs))) choice inputProof s'
                        = Inr s'')))"
proof -
  let ?s = "contract (run env txs)"
  let ?pc = "pollCount ?s"
  have st: "structural ?s" by (rule structural_run)
  have z: "polls ?s ?pc = zeroPoll" and nv: "\<And>v. \<not> pollVotes ?s ?pc v"
    using structural_fresh [OF st, of ?pc] by simp_all
  let ?p = "zeroPoll\<lparr>title := ttl, description := descr, startTime := start, endTime := en,
               creator := creator', options := opts,
               encryptedCounts := replicate (length opts) Uninitialized\<rparr>"
  let ?s' = "?s\<lparr>pollCount := ?pc + 1, polls := (polls ?s)(?pc := ?p),
                events := events ?s @ [PollCreated ?pc creator' ttl]\<rparr>"
  have po: "pushOptions opts (zeroPoll\<lparr>title := ttl, description := descr, startTime := start,
               endTime := en, creator := creator'\<rparr>) = Inr ?p"
    using assms(4) by (simp add: pushOptions_Inr zeroPoll_def)
  have cr: "createPoll now creator' ttl descr opts start en ?s = Inr (?s', ?pc)"
    using assms po by (simp add: createPoll_def MIN_OPTIONS_def MAX_OPTIONS_def Let_def z not_le)
  have op: "options (polls ?s' ?pc) = opts" "startTime (polls ?s' ?pc) = start"
    "endTime (polls ?s' ?pc) = en"
    "encryptedCounts (polls ?s' ?pc) = replicate (length opts) Uninitialized"
    by (simp_all add: zeroPoll_def)
  have vote: "\<exists>s''. submitVote env now voter ?pc choice inputProof ?s' = Inr s''"
    if "ucast start \<le> now" "fromExternal env voter choice inputProof \<noteq> None"
    for voter choice inputProof
  proof -
    from that(2) obtain c where c: "fromExternal env voter choice inputProof = Some c" by blast
    have "length opts \<le> length (replicate (length opts) Uninitialized)" by simp
    from addVote_total [OF this, of c] obtain counts where
      "addVote c [0..<length opts] (replicate (length opts) Uninitialized) = Inr counts" by blast
    then show ?thesis
      using that(1) assms(2,6) nv c
      by (auto simp: submitVote_def ensurePollExists_def Let_def zeroPoll_def not_less)
  qed
  show ?thesis
    using cr op vote by blast
qed

theorem createPoll_past_start_witness:
  "(\<exists>s'. createPoll 500 bob ''Snap poll'' [] [''Yes'', ''No''] 50 900
            (contract (run honest [txCreate])) = Inr (s', 1) \<and>
         options (polls s' 1) = [''Yes'', ''No''] \<and>
         (\<exists>s''. submitVote honest 500 alice 1 0 [] s' = Inr s''))"
proof -
  have pc: "pollCount (contract (run honest [txCreate])) = 1" by code_simp
  have h: "''Snap poll'' \<noteq> []" "2 \<le> length [''Yes'', ''No'']" "length [''Yes'', ''No''] \<le> 4"
    "[] \<notin> set [''Yes'', ''No'']" "(50 :: uint64) < 900" "(500 :: uint256) < ucast (900 :: uint64)"
    "pollCount (contract (run honest [txCreate])) + 1 \<noteq> 0"
    by (simp_all add: pc)
  have past: "ucast (50 :: uint64) \<le> (500 :: uint256)" by simp
  have fe: "fromExternal honest alice 0 [] \<noteq> None" by (simp add: honest_def)
  from createPoll_past_start [OF h, where creator'=bob and descr="[]"] past fe
  show ?thesis unfolding pc by blast
qed

subsection \<open>C10\<close>

text \<open>
  C10. In every state that a history reaches, a recorded vote refers to a created poll: if
  \<open>hasVoted\<close> answers true for a poll id and a voter, the id is below \<^verbatim>\<open>pollCount\<close>.
\<close>

theorem hasVoted_poll_exists:
  "hasVoted (contract (run env txs)) pollId voter \<Longrightarrow> pollId < pollCount (contract (run env txs))"
  using structural_fresh(2) [OF structural_run, of pollId env txs voter]
  by (auto simp: hasVoted_def)

theorem hasVoted_poll_exists_witness:
  "hasVoted (contract (run honest [txCreate, txVote 200 alice 1])) 0 alice \<and>
   0 < pollCount (contract (run honest [txCreate, txVote 200 alice 1]))"
proof -
  have h: "hasVoted (contract (run honest [txCreate, txVote 200 alice 1])) 0 alice"
    by code_simp
  from hasVoted_poll_exists [OF h] h show ?thesis by simp
qed

end
